theory Spec2Isabelle
  imports Complex_Main
begin

section \<open>Data model of \<^verbatim>\<open>game-2048.tsx\<close>\<close>

text \<open>
  The component keeps its game in React state: \<^verbatim>\<open>board\<close> (an array of tile objects),
  \<^verbatim>\<open>score\<close>, \<^verbatim>\<open>bestScore\<close>, \<^verbatim>\<open>moveCount\<close>, \<^verbatim>\<open>gameState\<close>, \<^verbatim>\<open>achievements\<close> and
  \<^verbatim>\<open>settings\<close>. A tile is the object type \<^verbatim>\<open>Tile\<close> of the source. Its numbers are
  JavaScript numbers that only ever hold integers here, so they are \<open>int\<close>. The optional
  flags \<^verbatim>\<open>justMerged\<close> and \<^verbatim>\<open>isNew\<close> are only ever read through a truthiness test, so an
  absent flag is \<open>False\<close>. The field \<^verbatim>\<open>mergedFrom\<close> is never written nor read and is left
  out. The fields \<^verbatim>\<open>value\<close> and \<^verbatim>\<open>id\<close> are called \<open>tvalue\<close> and \<open>tid\<close>.
\<close>

record Tile =
  tvalue :: int
  tid :: string
  justMerged :: bool
  isNew :: bool
  row :: int
  col :: int

datatype direction = Up | Down | Left | Right

datatype GameState = Start | Playing | Paused | GameOver | Victory

record Session =
  board :: "Tile list"
  score :: int
  bestScore :: int
  moveCount :: int
  gameState :: GameState
  achievements :: "string list"
  gridSize :: int

section \<open>The numbers of \<^verbatim>\<open>addNewTile\<close>\<close>

text \<open>
  A JavaScript number is a double. The doubles that are at least 0 are the numbers
  \<open>m * 2 ^ i / 2 ^ 1074\<close> with \<open>m < 2 ^ 53\<close>: multiples of \<open>1 / 2 ^ 1074\<close> whose binary
  numeral has at most 53 significant digits. \<open>bit_length\<close> counts the binary digits of a
  natural number.
\<close>

fun bit_length :: "nat \<Rightarrow> nat" where
  "bit_length n = (if n = 0 then 0 else Suc (bit_length (n div 2)))"

declare bit_length.simps [simp del]

text \<open>
  The distance between neighbouring doubles at a real \<open>x\<close> that is at least 0: a number of
  \<open>53 + s\<close> binary digits, counted in units of \<open>1 / 2 ^ 1074\<close>, keeps its leading 53 digits.
\<close>

definition quantum :: "real \<Rightarrow> real" where
  "quantum x = 2 ^ (bit_length (nat \<lfloor>x * 2 ^ 1074\<rfloor>) - 53) / 2 ^ 1074"

text \<open>The nearest integer, the even one of the two when both are equally near.\<close>

definition nearest_even :: "real \<Rightarrow> int" where
  "nearest_even z =
     (if z - of_int \<lfloor>z\<rfloor> < 1 / 2 then \<lfloor>z\<rfloor>
      else if 1 / 2 < z - of_int \<lfloor>z\<rfloor> then \<lfloor>z\<rfloor> + 1
      else if even \<lfloor>z\<rfloor> then \<lfloor>z\<rfloor> else \<lfloor>z\<rfloor> + 1)"

text \<open>
  The double that an arithmetic operation returns for the exact result \<open>x\<close>, which is at
  least 0 here: the nearest double, ties to the even significand. The operator \<^verbatim>\<open>*\<close> of
  the source is \<open>times_double\<close>. Its right operand is the length of an array, a number
  below \<open>2 ^ 32\<close>, and its left operand is below 1, so the product stays far below the
  largest double and the overflow of the format has no part in the model.
\<close>

definition to_double :: "real \<Rightarrow> real" where
  "to_double x = of_int (nearest_even (x / quantum x)) * quantum x"

definition times_double :: "real \<Rightarrow> real \<Rightarrow> real" where
  "times_double x y = to_double (x * y)"

text \<open>
  \<^verbatim>\<open>Math.random()\<close> returns a double that is at least 0 and less than 1. The two draws
  of \<^verbatim>\<open>addNewTile\<close> are parameters of the model, of a type that holds exactly these
  doubles.
\<close>

typedef draw =
  "{x :: real. 0 \<le> x \<and> x < 1 \<and> (\<exists>m e. m < 2 ^ 53 \<and> e \<le> 1074 \<and> x = real m / 2 ^ e)}"
  morphisms draw_val Draw
  by (rule exI [of _ 0]) auto

text \<open>The double that the literal \<^verbatim>\<open>0.9\<close> of the source denotes: the double nearest to 9/10.\<close>

definition nine_tenths :: real where
  "nine_tenths = 8106479329266893 / 2 ^ 53"

section \<open>Spawning a tile: \<^verbatim>\<open>addNewTile\<close>\<close>

text \<open>Decimal rendering of a non-negative number, as the template string of the id does.\<close>

fun digits :: "nat \<Rightarrow> string" where
  "digits n =
     (if n < 10 then [char_of (48 + n)]
      else digits (n div 10) @ [char_of (48 + n mod 10)])"

declare digits.simps [simp del]

text \<open>The cells no tile of the board sits on, row by row, as the two nested loops collect them.\<close>

definition emptyTiles :: "int \<Rightarrow> Tile list \<Rightarrow> (int \<times> int) list" where
  "emptyTiles g b =
     concat (map (\<lambda>r. map (\<lambda>c. (r, c))
       (filter (\<lambda>c. \<not> list_ex (\<lambda>tile. row tile = r \<and> col tile = c) b) [0..g - 1])) [0..g - 1])"

text \<open>
  \<open>r1\<close> is the draw that picks the cell, \<open>r2\<close> the draw that picks the value and \<open>now\<close> is
  \<^verbatim>\<open>Date.now()\<close>. The index of the cell is \<^verbatim>\<open>Math.floor(Math.random() * emptyTiles.length)\<close>,
  the floor of the double product. The source pushes onto the array it is given; the model
  returns the new array.
\<close>

definition addNewTile :: "int \<Rightarrow> draw \<Rightarrow> draw \<Rightarrow> nat \<Rightarrow> Tile list \<Rightarrow> Tile list" where
  "addNewTile g r1 r2 now b =
     (let es = emptyTiles g b in
      if length es > 0 then
        (case es ! nat \<lfloor>times_double (draw_val r1) (real (length es))\<rfloor> of
           (r, c) \<Rightarrow>
             b @ [\<lparr>tvalue = (if draw_val r2 < nine_tenths then 2 else 4),
                   tid = digits (nat r) @ ''-'' @ digits (nat c) @ ''-'' @ digits now,
                   justMerged = False, isNew = True, row = r, col = c\<rparr>])
      else b)"

section \<open>Terminal test: \<^verbatim>\<open>isGameOverState\<close>\<close>

definition isGameOverState :: "int \<Rightarrow> Tile list \<Rightarrow> bool" where
  "isGameOverState g b =
     (if int (length b) < g * g then False
      else \<not> list_ex (\<lambda>tile.
         (row tile > 0 \<and>
            list_ex (\<lambda>t. row t = row tile - 1 \<and> col t = col tile \<and> tvalue t = tvalue tile) b) \<or>
         (row tile < g - 1 \<and>
            list_ex (\<lambda>t. row t = row tile + 1 \<and> col t = col tile \<and> tvalue t = tvalue tile) b) \<or>
         (col tile > 0 \<and>
            list_ex (\<lambda>t. row t = row tile \<and> col t = col tile - 1 \<and> tvalue t = tvalue tile) b) \<or>
         (col tile < g - 1 \<and>
            list_ex (\<lambda>t. row t = row tile \<and> col t = col tile + 1 \<and> tvalue t = tvalue tile) b)) b)"

section \<open>Resolving a move: \<^verbatim>\<open>move\<close>\<close>

text \<open>
  \<^verbatim>\<open>move\<close> copies every tile into a fresh object, keeps these objects in \<^verbatim>\<open>newBoard\<close>
  and, in sorted order, in \<^verbatim>\<open>sortedTiles\<close>, removes objects from \<^verbatim>\<open>newBoard\<close> by identity
  (\<^verbatim>\<open>t !== targetTile && t !== tile\<close>) and writes the new coordinates into the object
  (\<^verbatim>\<open>tile.row = newRow\<close>). The model gives every object a reference number and keeps
  \<^verbatim>\<open>newBoard\<close> as a list of references paired with the object's current fields. An
  object is written only while it is the loop's current \<^verbatim>\<open>tile\<close>, and it is the current
  tile once, so the fields read at the start of its iteration are those of the copy.
\<close>

type_synonym obj = "nat \<times> Tile"

fun drow :: "direction \<Rightarrow> int" where
  "drow Up = - 1"
| "drow Down = 1"
| "drow Left = 0"
| "drow Right = 0"

fun dcol :: "direction \<Rightarrow> int" where
  "dcol Left = - 1"
| "dcol Right = 1"
| "dcol Up = 0"
| "dcol Down = 0"

text \<open>
  How the \<^verbatim>\<open>while (true)\<close> loop is left: at a free cell (\<open>Stop\<close>, after stepping back from
  the wall or from a tile that does not merge) or on a tile that merges (\<open>Merge\<close>). The
  loop reads \<^verbatim>\<open>newBoard\<close> and writes nothing before the iteration that breaks, so what the
  merging branch does is done by \<open>move_tile\<close> below from this outcome.
\<close>

datatype outcome = Stop int int | Merge obj int int

function slide :: "direction \<Rightarrow> int \<Rightarrow> obj list \<Rightarrow> Tile \<Rightarrow> int \<Rightarrow> int \<Rightarrow> outcome" where
  "slide d g nb tile r c =
     (if r + drow d < 0 \<or> r + drow d \<ge> g \<or> c + dcol d < 0 \<or> c + dcol d \<ge> g
      then Stop (r + drow d - drow d) (c + dcol d - dcol d)
      else (case find (\<lambda>t. row (snd t) = r + drow d \<and> col (snd t) = c + dcol d) nb of
              Some targetTile \<Rightarrow>
                if tvalue (snd targetTile) = tvalue tile \<and> \<not> justMerged (snd targetTile)
                then Merge targetTile (r + drow d) (c + dcol d)
                else Stop (r + drow d - drow d) (c + dcol d - dcol d)
            | None \<Rightarrow> slide d g nb tile (r + drow d) (c + dcol d)))"
  by pat_completeness auto
termination
  by (relation "measure (\<lambda>(d, g, nb, tile, r, c).
        case d of Up \<Rightarrow> nat r | Down \<Rightarrow> nat (g - r) | Left \<Rightarrow> nat c | Right \<Rightarrow> nat (g - c))")
     (auto split: direction.splits)

declare slide.simps [simp del]

text \<open>
  The variables of \<^verbatim>\<open>move\<close> that the \<^verbatim>\<open>for\<close> loop updates. \<open>fresh\<close> is the next unused
  object reference. \<open>achievementsSet\<close> and \<open>gameStateSet\<close> are the values last passed to
  \<^verbatim>\<open>setAchievements\<close> and \<^verbatim>\<open>setGameState\<close> (React applies them after the handler returns; the
  handler itself keeps reading the values of the render it was created in), and \<open>toasts\<close>
  are the descriptions passed to \<^verbatim>\<open>toast\<close>.
\<close>

record Loop =
  newBoard :: "obj list"
  fresh :: nat
  changed :: bool
  newScore :: int
  mergeHappened :: bool
  achievementsSet :: "string list"
  gameStateSet :: GameState
  toasts :: "string list"

definition getAchievementDescription :: "string \<Rightarrow> string" where
  "getAchievementDescription achievement =
     (if achievement = ''reach2048'' then ''Reached the 2048 tile!''
      else if achievement = ''score1000'' then ''Scored 1,000 points''
      else if achievement = ''score10000'' then ''Scored 10,000 points''
      else if achievement = ''moves100'' then ''Made 100 moves in a single game''
      else if achievement = ''tile512'' then ''Created a 512 tile''
      else if achievement = ''tile1024'' then ''Created a 1024 tile''
      else ''New achievement unlocked!'')"

text \<open>
  \<^verbatim>\<open>addAchievement\<close> as \<^verbatim>\<open>move\<close> calls it: \<open>ach\<close> is the \<^verbatim>\<open>achievements\<close> of the render the
  handler belongs to.
\<close>

definition addAchievement :: "string list \<Rightarrow> string \<Rightarrow> Loop \<Rightarrow> Loop" where
  "addAchievement ach achievement st =
     (if achievement \<notin> set ach
      then st\<lparr>achievementsSet := ach @ [achievement],
              toasts := toasts st @ [getAchievementDescription achievement]\<rparr>
      else st)"

text \<open>
  The end of an iteration of the \<^verbatim>\<open>for\<close> loop: \<^verbatim>\<open>if (newRow !== row || newCol !== col)\<close>,
  which writes the new coordinates into the object of the current tile. \<open>ref\<close> is the
  reference of that object, \<open>r\<close> and \<open>c\<close> are \<^verbatim>\<open>row\<close> and \<^verbatim>\<open>col\<close>.
\<close>

definition relocate :: "nat \<Rightarrow> int \<Rightarrow> int \<Rightarrow> int \<Rightarrow> int \<Rightarrow> Loop \<Rightarrow> Loop" where
  "relocate ref r c newRow newCol st =
     (if newRow \<noteq> r \<or> newCol \<noteq> c
      then st\<lparr>changed := True,
              newBoard := map (\<lambda>t. if fst t = ref
                                    then (fst t, (snd t)\<lparr>row := newRow, col := newCol\<rparr>)
                                    else t) (newBoard st)\<rparr>
      else st)"

text \<open>
  The merging branch of the \<^verbatim>\<open>while\<close> loop, for the current tile \<open>x\<close> and the tile it has
  run into: both objects are filtered out of \<^verbatim>\<open>newBoard\<close>, a new object of twice the value is
  pushed, and a 2048 not yet among the achievements is the victory.
\<close>

definition merge_into :: "string list \<Rightarrow> obj \<Rightarrow> obj \<Rightarrow> int \<Rightarrow> int \<Rightarrow> Loop \<Rightarrow> Loop" where
  "merge_into ach x targetTile newRow newCol st =
     (let st1 = st\<lparr>newBoard :=
                      filter (\<lambda>t. fst t \<noteq> fst targetTile \<and> fst t \<noteq> fst x) (newBoard st) @
                        [(fresh st, \<lparr>tvalue = tvalue (snd x) * 2, tid = tid (snd x),
                                     justMerged = True, isNew = False,
                                     row = newRow, col = newCol\<rparr>)],
                    fresh := fresh st + 1,
                    newScore := newScore st + tvalue (snd x) * 2,
                    changed := True,
                    mergeHappened := True\<rparr>
      in if tvalue (snd x) * 2 = 2048 \<and> ''reach2048'' \<notin> set ach
         then (addAchievement ach ''reach2048'' st1)\<lparr>gameStateSet := Victory\<rparr>
         else st1)"

text \<open>The body of the \<^verbatim>\<open>for\<close> loop for one tile \<open>x\<close> of \<^verbatim>\<open>sortedTiles\<close>.\<close>

definition move_tile :: "direction \<Rightarrow> int \<Rightarrow> string list \<Rightarrow> Loop \<Rightarrow> obj \<Rightarrow> Loop" where
  "move_tile d g ach st x =
     (case slide d g (newBoard st) (snd x) (row (snd x)) (col (snd x)) of
        Merge targetTile newRow newCol \<Rightarrow>
          relocate (fst x) (row (snd x)) (col (snd x)) newRow newCol
            (merge_into ach x targetTile newRow newCol st)
      | Stop newRow newCol \<Rightarrow>
          relocate (fst x) (row (snd x)) (col (snd x)) newRow newCol st)"

text \<open>
  The comparator of the sort is \<^verbatim>\<open>a.row - b.row\<close> for up, \<^verbatim>\<open>b.row - a.row\<close> for down,
  \<^verbatim>\<open>a.col - b.col\<close> for left and \<^verbatim>\<open>b.col - a.col\<close> for right: an ascending stable sort
  on the key below (\<^verbatim>\<open>Array.prototype.sort\<close> is stable, and so is \<open>sort_key\<close>).
\<close>

fun sortKey :: "direction \<Rightarrow> obj \<Rightarrow> int" where
  "sortKey Up t = row (snd t)"
| "sortKey Down t = - row (snd t)"
| "sortKey Left t = col (snd t)"
| "sortKey Right t = - col (snd t)"

text \<open>
  \<^verbatim>\<open>board.map((tile) => ({ ...tile, justMerged: false, isNew: false }))\<close>: the objects of
  \<^verbatim>\<open>newBoard\<close>, numbered from 0, and the loop variables before the first iteration.
\<close>

definition copies :: "Tile list \<Rightarrow> obj list" where
  "copies b = zip [0..<length b] (map (\<lambda>tile. tile\<lparr>justMerged := False, isNew := False\<rparr>) b)"

definition initLoop :: "Session \<Rightarrow> Loop" where
  "initLoop s =
     \<lparr>newBoard = copies (board s), fresh = length (board s), changed = False,
      newScore = score s, mergeHappened = False, achievementsSet = achievements s,
      gameStateSet = gameState s, toasts = []\<rparr>"

text \<open>The state of the loop variables when the \<^verbatim>\<open>for\<close> loop of \<^verbatim>\<open>move\<close> is done.\<close>

definition resolve :: "direction \<Rightarrow> Session \<Rightarrow> Loop" where
  "resolve d s =
     foldl (move_tile d (gridSize s) (achievements s)) (initLoop s)
       (sort_key (sortKey d) (copies (board s)))"

text \<open>
  \<^verbatim>\<open>move\<close> itself: the new session state and the toasts shown. Sounds and the writes to
  local storage are not modelled.
\<close>

definition move :: "direction \<Rightarrow> draw \<Rightarrow> draw \<Rightarrow> nat \<Rightarrow> Session \<Rightarrow> Session \<times> string list" where
  "move d r1 r2 now s =
     (if gameState s \<noteq> Playing then (s, [])
      else
        let st = resolve d s in
        if changed st then
          (let b = addNewTile (gridSize s) r1 r2 now (map snd (newBoard st));
               s1 = s\<lparr>achievements := achievementsSet st, gameState := gameStateSet st,
                      board := b, score := newScore st, moveCount := moveCount s + 1\<rparr>
           in (if isGameOverState (gridSize s) b then s1\<lparr>gameState := GameOver\<rparr> else s1,
               toasts st))
        else if isGameOverState (gridSize s) (map snd (newBoard st))
        then (s\<lparr>achievements := achievementsSet st, gameState := GameOver\<rparr>, toasts st)
        else (s\<lparr>achievements := achievementsSet st, gameState := gameStateSet st\<rparr>, toasts st))"

section \<open>Achievements and the other session commands\<close>

text \<open>\<^verbatim>\<open>Math.max(...board.map((tile) => tile.value), 0)\<close>.\<close>

definition maxTile :: "Tile list \<Rightarrow> int" where
  "maxTile b = foldr max (map tvalue b) 0"

text \<open>The list \<^verbatim>\<open>newAchievements\<close> that \<^verbatim>\<open>checkAchievements\<close> collects.\<close>

definition newAchievements :: "Session \<Rightarrow> string list" where
  "newAchievements s =
     (if score s \<ge> 1000 \<and> ''score1000'' \<notin> set (achievements s) then [''score1000''] else []) @
     (if score s \<ge> 10000 \<and> ''score10000'' \<notin> set (achievements s) then [''score10000''] else []) @
     (if moveCount s \<ge> 100 \<and> ''moves100'' \<notin> set (achievements s) then [''moves100''] else []) @
     (if maxTile (board s) \<ge> 512 \<and> ''tile512'' \<notin> set (achievements s) then [''tile512''] else []) @
     (if maxTile (board s) \<ge> 1024 \<and> ''tile1024'' \<notin> set (achievements s) then [''tile1024''] else [])"

text \<open>\<^verbatim>\<open>addAchievements\<close>: the new session state and the toasts shown.\<close>

definition addAchievements :: "string list \<Rightarrow> Session \<Rightarrow> Session \<times> string list" where
  "addAchievements newAchs s =
     (let filteredAchievements = filter (\<lambda>a. a \<notin> set (achievements s)) newAchs in
      if length filteredAchievements > 0
      then (s\<lparr>achievements := achievements s @ filteredAchievements\<rparr>,
            [getAchievementDescription (filteredAchievements ! 0)])
      else (s, []))"

definition checkAchievements :: "Session \<Rightarrow> Session \<times> string list" where
  "checkAchievements s =
     (if length (newAchievements s) > 0 then addAchievements (newAchievements s) s else (s, []))"

definition continueAfterVictory :: "Session \<Rightarrow> Session" where
  "continueAfterVictory s = s\<lparr>gameState := Playing\<rparr>"

text \<open>\<^verbatim>\<open>initializeGame\<close> (also \<^verbatim>\<open>resetGame\<close>), with the draws of its two spawns.\<close>

definition initializeGame :: "draw \<Rightarrow> draw \<Rightarrow> nat \<Rightarrow> draw \<Rightarrow> draw \<Rightarrow> nat \<Rightarrow> Session \<Rightarrow> Session" where
  "initializeGame r1 r2 now r3 r4 now' s =
     s\<lparr>board := addNewTile (gridSize s) r3 r4 now' (addNewTile (gridSize s) r1 r2 now []),
       score := 0, moveCount := 0, gameState := Playing\<rparr>"

section \<open>Properties of boards\<close>

definition in_grid :: "int \<Rightarrow> int \<Rightarrow> int \<Rightarrow> bool" where
  "in_grid g r c \<longleftrightarrow> 0 \<le> r \<and> r < g \<and> 0 \<le> c \<and> c < g"

definition occupied :: "Tile list \<Rightarrow> int \<Rightarrow> int \<Rightarrow> bool" where
  "occupied b r c \<longleftrightarrow> (\<exists>tile \<in> set b. row tile = r \<and> col tile = c)"

text \<open>A board as the data model wants it: every tile in the grid, no two tiles on a cell.\<close>

definition valid_board :: "int \<Rightarrow> Tile list \<Rightarrow> bool" where
  "valid_board g b \<longleftrightarrow>
     (\<forall>tile \<in> set b. in_grid g (row tile) (col tile)) \<and>
     distinct (map (\<lambda>tile. (row tile, col tile)) b)"

definition adjacent :: "Tile \<Rightarrow> Tile \<Rightarrow> bool" where
  "adjacent t u \<longleftrightarrow>
     (row u = row t - 1 \<and> col u = col t) \<or> (row u = row t + 1 \<and> col u = col t) \<or>
     (row u = row t \<and> col u = col t - 1) \<or> (row u = row t \<and> col u = col t + 1)"

definition sum_values :: "Tile list \<Rightarrow> int" where
  "sum_values b = sum_list (map tvalue b)"

text \<open>
  A tile is blocked in a direction when the next cell in that direction is outside the grid,
  or is occupied and holds no tile of its value. A board has no legal slide in a direction
  when all its tiles are blocked.
\<close>

definition blocked :: "direction \<Rightarrow> int \<Rightarrow> Tile list \<Rightarrow> Tile \<Rightarrow> bool" where
  "blocked d g b t \<longleftrightarrow>
     \<not> in_grid g (row t + drow d) (col t + dcol d) \<or>
     (occupied b (row t + drow d) (col t + dcol d) \<and>
      (\<forall>u \<in> set b. row u = row t + drow d \<and> col u = col t + dcol d \<longrightarrow> tvalue u \<noteq> tvalue t))"

text \<open>A board is settled in a direction when no tile has a free cell of the grid next to it in that direction.\<close>

definition settled :: "direction \<Rightarrow> int \<Rightarrow> Tile list \<Rightarrow> bool" where
  "settled d g b \<longleftrightarrow>
     (\<forall>t \<in> set b. \<not> in_grid g (row t + drow d) (col t + dcol d) \<or>
                    occupied b (row t + drow d) (col t + dcol d))"

section \<open>Properties of the achievements\<close>

text \<open>What \<^verbatim>\<open>checkAchievements\<close> unlocks an achievement for, read off its five tests.\<close>

definition threshold_met :: "Session \<Rightarrow> string \<Rightarrow> bool" where
  "threshold_met s a \<longleftrightarrow>
     (a = ''score1000'' \<and> score s \<ge> 1000) \<or>
     (a = ''score10000'' \<and> score s \<ge> 10000) \<or>
     (a = ''moves100'' \<and> moveCount s \<ge> 100) \<or>
     (a = ''tile512'' \<and> maxTile (board s) \<ge> 512) \<or>
     (a = ''tile1024'' \<and> maxTile (board s) \<ge> 1024)"

section \<open>Properties of the loop of \<^verbatim>\<open>move\<close>\<close>

text \<open>
  The position of a cell along the direction of a move, as the sort orders it: smaller is
  nearer to the wall the tiles slide to.
\<close>

definition keyOf :: "direction \<Rightarrow> int \<Rightarrow> int \<Rightarrow> int" where
  "keyOf d r c = (case d of Up \<Rightarrow> r | Down \<Rightarrow> - r | Left \<Rightarrow> c | Right \<Rightarrow> - c)"

text \<open>
  What holds of the loop variables before each iteration of the \<^verbatim>\<open>for\<close> loop, \<open>rest\<close> being
  the tiles of \<^verbatim>\<open>sortedTiles\<close> still to come: references are not shared, the tiles to come
  are on the board as they were copied, and they come in the order of the sort.
\<close>

definition loop_inv :: "direction \<Rightarrow> Loop \<Rightarrow> obj list \<Rightarrow> bool" where
  "loop_inv d st rest \<longleftrightarrow>
     distinct (map fst (newBoard st)) \<and>
     (\<forall>e \<in> set (newBoard st). fst e < fresh st) \<and>
     set rest \<subseteq> set (newBoard st) \<and>
     distinct rest \<and>
     sorted (map (sortKey d) rest)"

text \<open>The loop variables of \<^verbatim>\<open>move\<close> after the first \<open>k\<close> iterations of the \<^verbatim>\<open>for\<close> loop.\<close>

definition loop_after :: "direction \<Rightarrow> Session \<Rightarrow> nat \<Rightarrow> Loop" where
  "loop_after d s k =
     foldl (move_tile d (gridSize s) (achievements s)) (initLoop s)
       (take k (sort_key (sortKey d) (copies (board s))))"

text \<open>The coordinate of a tile across the direction of a move: its column for up and down, its row for left and right.\<close>

definition lane :: "direction \<Rightarrow> Tile \<Rightarrow> int" where
  "lane d t = (case d of Up \<Rightarrow> col t | Down \<Rightarrow> col t | Left \<Rightarrow> row t | Right \<Rightarrow> row t)"

text \<open>
  A tile of \<^verbatim>\<open>newBoard\<close> that is not flagged \<^verbatim>\<open>justMerged\<close> is the copy of the tile of the board
  with its reference, in its lane; a flagged tile has the id of a tile of the board, twice its
  value, its lane, and a second tile of the board with that value shares the lane.
\<close>

definition from_board :: "direction \<Rightarrow> Tile list \<Rightarrow> obj \<Rightarrow> bool" where
  "from_board d b e \<longleftrightarrow>
     (if justMerged (snd e)
      then (\<exists>i < length b. \<exists>j < length b.
              i \<noteq> j \<and> tid (snd e) = tid (b ! i) \<and> tvalue (snd e) = tvalue (b ! i) * 2 \<and>
              tvalue (b ! j) = tvalue (b ! i) \<and>
              lane d (snd e) = lane d (b ! i) \<and> lane d (b ! j) = lane d (b ! i))
      else fst e < length b \<and> tvalue (snd e) = tvalue (b ! fst e) \<and>
           tid (snd e) = tid (b ! fst e) \<and> lane d (snd e) = lane d (b ! fst e))"

text \<open>How many tiles of \<^verbatim>\<open>newBoard\<close> are flagged \<^verbatim>\<open>justMerged\<close>.\<close>

definition merged_count :: "obj list \<Rightarrow> nat" where
  "merged_count nb = length (filter (\<lambda>e. justMerged (snd e)) nb)"

text \<open>
  During the \<^verbatim>\<open>for\<close> loop of a move, the tiles of \<^verbatim>\<open>newBoard\<close> that are no longer to come
  have the wall, or another such tile, next to them in the direction of the move.
\<close>

definition settled_objs :: "direction \<Rightarrow> int \<Rightarrow> obj list \<Rightarrow> obj list \<Rightarrow> bool" where
  "settled_objs d g nb rest \<longleftrightarrow>
     (\<forall>e \<in> set nb. e \<notin> set rest \<longrightarrow>
        \<not> in_grid g (row (snd e) + drow d) (col (snd e) + dcol d) \<or>
        (\<exists>e' \<in> set nb. e' \<notin> set rest \<and>
           row (snd e') = row (snd e) + drow d \<and> col (snd e') = col (snd e) + dcol d))"

text \<open>
  The session with the board, the score and the achievements the resolver of \<^verbatim>\<open>move\<close> has
  computed, and no tile spawned: what a second resolution without a spawn starts from.
\<close>

definition resolved :: "direction \<Rightarrow> Session \<Rightarrow> Session" where
  "resolved d s =
     s\<lparr>board := map snd (newBoard (resolve d s)), score := newScore (resolve d s),
       achievements := achievementsSet (resolve d s)\<rparr>"

section \<open>Sessions as sequences of commands\<close>

text \<open>
  The handlers that change the game: the arrow keys (\<^verbatim>\<open>move\<close>), Play, Restart, Play Again and
  New Game (\<^verbatim>\<open>initializeGame\<close>), Keep Playing (\<^verbatim>\<open>continueAfterVictory\<close>), the pause button and
  the Escape key, Resume, Return to Menu of the pause dialog and of the game-over dialog, and the
  effect that runs \<^verbatim>\<open>checkAchievements\<close> when the score has changed. The grid size can only
  be set from the start screen, and the only way from there to a game is \<^verbatim>\<open>initializeGame\<close>;
  it is not a command here. Each handler is taken in any state, which is more than the dialogs
  allow. A session value is the React state of one run of the page: the copy of it that
  \<^verbatim>\<open>saveGameData\<close> writes to local storage, and the load of that copy when the page opens, are
  not modelled.
\<close>

datatype command =
    Move direction draw draw nat
  | InitializeGame draw draw nat draw draw nat
  | ContinueAfterVictory
  | Pause
  | Resume
  | ReturnToMenu
  | CloseGameOver
  | CheckAchievements

fun exec :: "command \<Rightarrow> Session \<Rightarrow> Session \<times> string list" where
  "exec (Move d r1 r2 now) s = move d r1 r2 now s"
| "exec (InitializeGame r1 r2 now r3 r4 now') s = (initializeGame r1 r2 now r3 r4 now' s, [])"
| "exec ContinueAfterVictory s = (continueAfterVictory s, [])"
| "exec Pause s = (s\<lparr>gameState := Paused\<rparr>, [])"
| "exec Resume s = (s\<lparr>gameState := Playing\<rparr>, [])"
| "exec ReturnToMenu s = (s\<lparr>gameState := Start, board := []\<rparr>, [])"
| "exec CloseGameOver s = (s\<lparr>gameState := Start\<rparr>, [])"
| "exec CheckAchievements s = checkAchievements s"

text \<open>The sessions a game can be in: after \<^verbatim>\<open>initializeGame\<close>, and after any command from there.\<close>

inductive reachable :: "Session \<Rightarrow> bool" where
  start: "reachable (initializeGame r1 r2 now r3 r4 now' s)"
| step: "reachable s \<Longrightarrow> reachable (fst (exec c s))"

text \<open>The toast of the victory.\<close>

definition victoryToast :: string where
  "victoryToast = getAchievementDescription ''reach2048''"

text \<open>
  The values the loop of \<^verbatim>\<open>move\<close> can have passed to \<^verbatim>\<open>setAchievements\<close>, \<^verbatim>\<open>setGameState\<close>
  and \<^verbatim>\<open>toast\<close>: none yet, or those of the victory.
\<close>

definition victory_fields :: "string list \<Rightarrow> GameState \<Rightarrow> Loop \<Rightarrow> bool" where
  "victory_fields ach g0 st \<longleftrightarrow>
     (toasts st = [] \<and> achievementsSet st = ach \<and> gameStateSet st = g0) \<or>
     (''reach2048'' \<notin> set ach \<and> toasts st \<noteq> [] \<and> set (toasts st) = {victoryToast} \<and>
      achievementsSet st = ach @ [''reach2048''] \<and> gameStateSet st = Victory \<and> changed st)"

text \<open>A tile made by a merge of this move, of value 2048.\<close>

definition made_2048 :: "obj \<Rightarrow> bool" where
  "made_2048 e \<longleftrightarrow> justMerged (snd e) \<and> tvalue (snd e) = 2048"

section \<open>Example boards and sessions\<close>

definition tile_at :: "int \<Rightarrow> int \<Rightarrow> int \<Rightarrow> Tile" where
  "tile_at v r c = \<lparr>tvalue = v, tid = ''tile'', justMerged = False, isNew = False, row = r, col = c\<rparr>"

definition checkerboard :: "Tile list" where
  "checkerboard =
     map (\<lambda>(r, c). tile_at (if even (r + c) then 2 else 4) r c) (List.product [0..3] [0..3])"

definition tile0 :: Tile where
  "tile0 = \<lparr>tvalue = 2, tid = ''0-0-5'', justMerged = False, isNew = True, row = 0, col = 0\<rparr>"


definition two_twos :: Session where
  "two_twos =
     \<lparr>board = [tile_at 2 0 0, tile_at 2 0 1], score = 0, bestScore = 0, moveCount = 0,
      gameState = Playing, achievements = [], gridSize = 4\<rparr>"

definition new_session :: Session where
  "new_session =
     \<lparr>board = [], score = 0, bestScore = 0, moveCount = 0, gameState = Start,
      achievements = [], gridSize = 4\<rparr>"

definition first_move :: Session where
  "first_move =
     fst (exec (Move Left (Draw 0) (Draw 0) 3)
       (initializeGame (Draw 0) (Draw 0) 1 (Draw 0) (Draw 0) 2 new_session))"

definition row_224 :: Session where
  "row_224 =
     \<lparr>board = [tile_at 2 0 0, tile_at 2 0 1, tile_at 4 0 2], score = 0, bestScore = 0,
      moveCount = 0, gameState = Playing, achievements = [], gridSize = 4\<rparr>"

definition row_222 :: Session where
  "row_222 =
     \<lparr>board = [tile_at 2 0 0, tile_at 2 0 1, tile_at 2 0 2], score = 0, bestScore = 0,
      moveCount = 0, gameState = Playing, achievements = [], gridSize = 4\<rparr>"

definition row_242 :: Session where
  "row_242 =
     \<lparr>board = [tile_at 2 0 0, tile_at 4 0 1, tile_at 2 0 2], score = 0, bestScore = 0,
      moveCount = 0, gameState = Playing, achievements = [], gridSize = 4\<rparr>"

definition merged_4 :: obj where
  "merged_4 = (3, \<lparr>tvalue = 4, tid = ''tile'', justMerged = True, isNew = False, row = 0, col = 0\<rparr>)"

definition moved_4 :: obj where
  "moved_4 = (2, \<lparr>tvalue = 4, tid = ''tile'', justMerged = False, isNew = False, row = 0, col = 1\<rparr>)"



section \<open>Rounding to a double\<close>

lemma bit_length_less: "n < 2 ^ bit_length n"
proof (induction n rule: bit_length.induct)
  case (1 n)
  show ?case
  proof (cases "n = 0")
    case True
    then show ?thesis by simp
  next
    case False
    with 1 have "n div 2 < 2 ^ bit_length (n div 2)" by simp
    then have "n < 2 * 2 ^ bit_length (n div 2)" by linarith
    with False show ?thesis by (subst bit_length.simps) simp
  qed
qed

lemma bit_length_ge: "0 < n \<Longrightarrow> 2 ^ (bit_length n - 1) \<le> n"
proof (induction n rule: bit_length.induct)
  case (1 n)
  then have n: "n \<noteq> 0" by simp
  have b: "bit_length n = Suc (bit_length (n div 2))"
    using n by (subst bit_length.simps) simp
  show ?case
  proof (cases "n div 2 = 0")
    case True
    then have "bit_length (n div 2) = 0" by (subst bit_length.simps) simp
    with b 1(2) show ?thesis by simp
  next
    case False
    with 1(1) n have i: "2 ^ (bit_length (n div 2) - 1) \<le> n div 2" by simp
    from False have "bit_length (n div 2) \<noteq> 0"
      by (subst bit_length.simps) simp
    then have "bit_length (n div 2) = Suc (bit_length (n div 2) - 1)" by simp
    then have "(2::nat) ^ bit_length (n div 2) = 2 * 2 ^ (bit_length (n div 2) - 1)"
      by (metis power_Suc)
    with i have "2 ^ bit_length (n div 2) \<le> 2 * (n div 2)" by simp
    also have "\<dots> \<le> n" by simp
    finally show ?thesis by (simp add: b)
  qed
qed

lemma bit_length_le: 
  assumes "n < 2 ^ N" 
  shows "bit_length n \<le> N"
proof (cases "n = 0")
  case True
  then show ?thesis by (subst bit_length.simps) simp
next
  case False
  then have "(2::nat) ^ (bit_length n - 1) \<le> n" by (intro bit_length_ge) simp
  with assms have "(2::nat) ^ (bit_length n - 1) < 2 ^ N" by linarith
  then have "bit_length n - 1 < N" by simp
  then show ?thesis by linarith
qed

lemma bit_length_eq:
  assumes "2 ^ N \<le> n" "n < 2 ^ Suc N"
  shows "bit_length n = Suc N"
proof -
  have "bit_length n \<le> Suc N" using assms(2) by (rule bit_length_le)
  moreover have "n < 2 ^ bit_length n" by (rule bit_length_less)
  with assms(1) have "(2::nat) ^ N < 2 ^ bit_length n" by linarith
  then have "N < bit_length n" by simp
  ultimately show ?thesis by linarith
qed

lemma quantum_pos: "0 < quantum x"
  by (simp add: quantum_def)

lemma quantum_bound:
  assumes "0 \<le> x"
  shows "quantum x = 1 / 2 ^ 1074 \<or> quantum x \<le> x / 2 ^ 52"
proof (cases "bit_length (nat \<lfloor>x * 2 ^ 1074\<rfloor>) \<le> 53")
  case True
  then show ?thesis by (simp add: quantum_def)
next
  case False
  define f where "f = nat \<lfloor>x * 2 ^ 1074\<rfloor>"
  define s where "s = bit_length f - 53"
  from False have L: "bit_length f - 1 = s + 52" by (simp add: f_def s_def)
  from False have "f \<noteq> 0" unfolding f_def by (subst (asm) bit_length.simps) auto
  then have "2 ^ (bit_length f - 1) \<le> f" by (intro bit_length_ge) simp
  then have "real (2 ^ (s + 52)) \<le> real f" unfolding L by (rule of_nat_mono)
  also have "real f \<le> x * 2 ^ 1074"
    using assms unfolding f_def by simp
  finally have "2 ^ s * 2 ^ 52 \<le> x * 2 ^ 1074" by (simp add: power_add)
  then have "2 ^ s / 2 ^ 1074 \<le> x / 2 ^ 52" by (simp add: field_simps)
  then show ?thesis by (simp add: quantum_def f_def s_def)
qed

lemma quantum_binade:
  assumes "2 ^ j \<le> x" "x < 2 ^ Suc j"
  shows "quantum x = 2 ^ j / 2 ^ 52"
proof -
  define f where "f = nat \<lfloor>x * 2 ^ 1074\<rfloor>"
  have x0: "0 \<le> x" using assms(1) by (meson less_eq_real_def order_trans zero_less_numeral zero_less_power)
  have "real (2 ^ (j + 1074)) \<le> x * 2 ^ 1074" using assms(1) by (simp add: power_add)
  then have "int (2 ^ (j + 1074)) \<le> \<lfloor>x * 2 ^ 1074\<rfloor>" by (simp add: le_floor_iff)
  then have 1: "2 ^ (j + 1074) \<le> f" unfolding f_def by linarith
  have "x * 2 ^ 1074 < real (2 ^ Suc (j + 1074))" using assms(2) by (simp add: power_add)
  then have "\<lfloor>x * 2 ^ 1074\<rfloor> < int (2 ^ Suc (j + 1074))" by (simp add: floor_less_iff)
  then have 2: "f < 2 ^ Suc (j + 1074)" unfolding f_def
    by (cases "0 \<le> \<lfloor>x * 2 ^ 1074\<rfloor>") (simp_all add: nat_less_iff)
  from 1 2 have "bit_length f = Suc (j + 1074)" by (rule bit_length_eq)
  then have "quantum x = 2 ^ (j + 1022) / 2 ^ 1074" by (simp add: quantum_def f_def)
  also have "\<dots> = 2 ^ j * 2 ^ 1022 / (2 ^ 1022 * 2 ^ 52)" by (simp add: power_add)
  also have "\<dots> = 2 ^ j / 2 ^ 52" by simp
  finally show ?thesis .
qed

lemma nearest_even_error: "\<bar>of_int (nearest_even z) - z\<bar> \<le> 1 / 2"
  unfolding nearest_even_def by (auto simp: abs_if) linarith+

lemma nearest_even_ge:
  assumes "of_int a \<le> z"
  shows "a \<le> nearest_even z"
proof -
  from assms have "a \<le> \<lfloor>z\<rfloor>" by (simp add: le_floor_iff)
  moreover have "\<lfloor>z\<rfloor> \<le> nearest_even z" by (simp add: nearest_even_def)
  ultimately show ?thesis by (rule order_trans)
qed

lemma nearest_even_le: 
  assumes "z \<le> of_int a" 
  shows "nearest_even z \<le> a"
proof (cases "z = of_int \<lfloor>z\<rfloor>")
  case True
  then have "nearest_even z = \<lfloor>z\<rfloor>" by (simp add: nearest_even_def)
  moreover from True assms have "real_of_int \<lfloor>z\<rfloor> \<le> real_of_int a" by simp
  then have "\<lfloor>z\<rfloor> \<le> a" by (simp only: of_int_le_iff)
  ultimately show ?thesis by simp
next
  case False
  moreover have "of_int \<lfloor>z\<rfloor> \<le> z" by (rule of_int_floor_le)
  ultimately have "of_int \<lfloor>z\<rfloor> < z" by linarith
  with assms have "\<lfloor>z\<rfloor> < a" by linarith
  moreover have "nearest_even z \<le> \<lfloor>z\<rfloor> + 1" by (simp add: nearest_even_def)
  ultimately show ?thesis by linarith
qed

lemma nearest_even_of_int: "nearest_even (of_int a) = a"
  by (simp add: nearest_even_def)


lemma to_double_error: "\<bar>to_double x - x\<bar> \<le> quantum x / 2"
proof -
  define q where "q = quantum x"
  have q: "0 < q" unfolding q_def by (rule quantum_pos)
  have "\<bar>of_int (nearest_even (x / q)) - x / q\<bar> * q \<le> 1 / 2 * q"
    using nearest_even_error [of "x / q"] q by (intro mult_right_mono) simp_all
  moreover have "(of_int (nearest_even (x / q)) - x / q) * q =
      of_int (nearest_even (x / q)) * q - x"
    using q by (simp add: field_simps)
  then have "\<bar>(of_int (nearest_even (x / q)) - x / q) * q\<bar> =
      \<bar>of_int (nearest_even (x / q)) * q - x\<bar>"
    by (rule arg_cong)
  then have "\<bar>of_int (nearest_even (x / q)) - x / q\<bar> * \<bar>q\<bar> =
      \<bar>of_int (nearest_even (x / q)) * q - x\<bar>"
    by (simp only: abs_mult)
  then have "\<bar>of_int (nearest_even (x / q)) - x / q\<bar> * q =
      \<bar>of_int (nearest_even (x / q)) * q - x\<bar>"
    using q by simp
  ultimately show ?thesis by (simp add: to_double_def q_def)
qed

lemma to_double_nonneg:
  assumes "0 \<le> x"
  shows "0 \<le> to_double x"
proof -
  have "real_of_int 0 \<le> x / quantum x" using assms quantum_pos [of x] by simp
  then have "0 \<le> nearest_even (x / quantum x)" by (rule nearest_even_ge)
  then show ?thesis using quantum_pos [of x] by (simp add: to_double_def)
qed

lemma quantum_inverse:
  assumes "0 \<le> x" "x < 2 ^ 53"
  shows "\<exists>j. quantum x = 1 / 2 ^ j"
proof -
  define f where "f = nat \<lfloor>x * 2 ^ 1074\<rfloor>"
  have "x * 2 ^ 1074 < 2 ^ 53 * 2 ^ 1074" using assms(2) by simp
  then have "x * 2 ^ 1074 < real (2 ^ 1127)" by simp
  then have "\<lfloor>x * 2 ^ 1074\<rfloor> < int (2 ^ 1127)" by (simp only: floor_less_iff of_int_of_nat_eq)
  then have "f < 2 ^ 1127" unfolding f_def
    by (cases "0 \<le> \<lfloor>x * 2 ^ 1074\<rfloor>") (simp_all add: nat_less_iff)
  then have "bit_length f \<le> 1127" by (rule bit_length_le)
  then have s: "bit_length f - 53 \<le> 1074" by simp
  have "(2::real) ^ 1074 = 2 ^ (bit_length f - 53) * 2 ^ (1074 - (bit_length f - 53))"
    using s by (simp only: power_add [symmetric] le_add_diff_inverse)
  then have "quantum x =
      2 ^ (bit_length f - 53) / (2 ^ (bit_length f - 53) * 2 ^ (1074 - (bit_length f - 53)))"
    by (simp only: quantum_def f_def)
  also have "\<dots> = 1 / 2 ^ (1074 - (bit_length f - 53))" by simp
  finally show ?thesis ..
qed

lemma to_double_bracket:
  assumes "0 \<le> x" "x < 2 ^ 53"
  shows "of_int a \<le> x \<Longrightarrow> of_int a \<le> to_double x"
    and "x \<le> of_int a \<Longrightarrow> to_double x \<le> of_int a"
proof -
  from quantum_inverse [OF assms] obtain j where q: "quantum x = 1 / 2 ^ j" ..
  have t: "to_double x = of_int (nearest_even (x * 2 ^ j)) / 2 ^ j"
    by (simp add: to_double_def q)
  show "of_int a \<le> to_double x" if "of_int a \<le> x"
  proof -
    from that have "real_of_int (a * 2 ^ j) \<le> x * 2 ^ j" by simp
    then have "a * 2 ^ j \<le> nearest_even (x * 2 ^ j)" by (rule nearest_even_ge)
    then have "real_of_int (a * 2 ^ j) \<le> real_of_int (nearest_even (x * 2 ^ j))"
      by (simp only: of_int_le_iff)
    then show ?thesis unfolding t by (simp add: field_simps)
  qed
  show "to_double x \<le> of_int a" if "x \<le> of_int a"
  proof -
    from that have "x * 2 ^ j \<le> real_of_int (a * 2 ^ j)" by simp
    then have "nearest_even (x * 2 ^ j) \<le> a * 2 ^ j" by (rule nearest_even_le)
    then have "real_of_int (nearest_even (x * 2 ^ j)) \<le> real_of_int (a * 2 ^ j)"
      by (simp only: of_int_le_iff)
    then show ?thesis unfolding t by (simp add: field_simps)
  qed
qed

lemma to_double_exact:
  assumes "m < 2 ^ 53"
  shows "to_double (real m * 2 ^ i / 2 ^ 1074) = real m * 2 ^ i / 2 ^ 1074"
proof -
  define x where "x = real m * 2 ^ i / 2 ^ 1074"
  define s where "s = bit_length (m * 2 ^ i) - 53"
  have xs: "x * 2 ^ 1074 = real (m * 2 ^ i)" by (simp add: x_def)
  then have f: "nat \<lfloor>x * 2 ^ 1074\<rfloor> = m * 2 ^ i" by (simp only: floor_of_nat nat_int)
  have "m * 2 ^ i < 2 ^ 53 * 2 ^ i" using assms by simp
  then have "m * 2 ^ i < 2 ^ (53 + i)" by (simp add: power_add)
  then have "bit_length (m * 2 ^ i) \<le> 53 + i" by (rule bit_length_le)
  then have s: "s \<le> i" by (simp add: s_def)
  have q: "quantum x = 2 ^ s / 2 ^ 1074" by (simp only: quantum_def f s_def)
  have p: "(2::real) ^ i = 2 ^ (i - s) * 2 ^ s"
    using s by (simp only: power_add [symmetric]) simp
  have "x / quantum x = x * 2 ^ 1074 / 2 ^ s" by (simp only: q divide_divide_eq_right)
  also have "\<dots> = real m * (2 ^ (i - s) * 2 ^ s) / 2 ^ s"
    by (simp only: xs p of_nat_mult of_nat_power of_nat_numeral)
  also have "\<dots> = of_int (int (m * 2 ^ (i - s)))" by simp
  finally have "nearest_even (x / quantum x) = int (m * 2 ^ (i - s))"
    by (simp only: nearest_even_of_int)
  then have "to_double x = of_int (int (m * 2 ^ (i - s))) * (2 ^ s / 2 ^ 1074)"
    by (simp only: to_double_def q)
  also have "\<dots> = real m * (2 ^ (i - s) * 2 ^ s) / 2 ^ 1074" by simp
  also have "\<dots> = x" by (simp only: p [symmetric] x_def)
  finally show ?thesis by (simp only: x_def)
qed

section \<open>The index of the spawn cell\<close>

lemma draw_val_bounds: "0 \<le> draw_val r" "draw_val r < 1"
  using draw_val [of r] by simp_all

lemma draw_val_cases:
  obtains M where "draw_val r = real M / 2 ^ 53" | "draw_val r < 1 / 2"
proof -
  from draw_val [of r] obtain m e where
    m: "m < 2 ^ 53" and e: "e \<le> 1074" and r: "draw_val r = real m / 2 ^ e" by auto
  show ?thesis
  proof (cases "e \<le> 53")
    case True
    then have "(2::real) ^ 53 = 2 ^ e * 2 ^ (53 - e)"
      by (simp only: power_add [symmetric] le_add_diff_inverse)
    then have "real m * 2 ^ (53 - e) / 2 ^ 53 = real m * 2 ^ (53 - e) / (2 ^ e * 2 ^ (53 - e))"
      by (simp only:)
    also have "\<dots> = real m / 2 ^ e" by simp
    finally have "draw_val r = real (m * 2 ^ (53 - e)) / 2 ^ 53" by (simp add: r)
    then show ?thesis by (rule that(1))
  next
    case False
    then have "(2::real) ^ 54 \<le> 2 ^ e" by (intro power_increasing) simp_all
    moreover have "real m < real (2 ^ 53)" using m by (simp only: of_nat_less_iff)
    then have "real m < 2 ^ 53" by simp
    ultimately have "real m / 2 ^ e < 2 ^ 53 / 2 ^ 54"
      by (intro frac_less) simp_all
    then have "draw_val r < 1 / 2" by (simp add: r)
    then show ?thesis by (rule that(2))
  qed
qed

lemma draw_val_le: "draw_val r \<le> 1 - 1 / 2 ^ 53"
proof (cases r rule: draw_val_cases)
  case (1 M)
  with draw_val_bounds(2) [of r] have "real M < 2 ^ 53" by simp
  then have "real M < real (2 ^ 53)" by simp
  then have "M < 2 ^ 53" by (simp only: of_nat_less_iff)
  then have "M \<le> 2 ^ 53 - 1" by simp
  then have "real M \<le> real (2 ^ 53 - 1)" by (rule of_nat_mono)
  then have "real M \<le> 2 ^ 53 - 1" by simp
  then have "real M / 2 ^ 53 \<le> (2 ^ 53 - 1) / 2 ^ 53" by (intro divide_right_mono) simp_all
  with 1 show ?thesis by simp
next
  case 2
  then show ?thesis by simp
qed

lemma draw_below_literal:
  "draw_val r < 8106479329266893 / 2 ^ 53 \<longleftrightarrow> draw_val r < 9 / 10"
proof (cases r rule: draw_val_cases)
  case (1 M)
  have "real M / 2 ^ 53 < 8106479329266893 / 2 ^ 53 \<longleftrightarrow> real M < real 8106479329266893"
    by (simp add: divide_less_cancel)
  also have "\<dots> \<longleftrightarrow> M < 8106479329266893" by (simp only: of_nat_less_iff)
  also have "\<dots> \<longleftrightarrow> 10 * M < 81064793292668928" by presburger
  also have "\<dots> \<longleftrightarrow> real (10 * M) < real 81064793292668928" by (simp only: of_nat_less_iff)
  also have "\<dots> \<longleftrightarrow> real M / 2 ^ 53 < 9 / 10" by (simp add: field_simps)
  finally show ?thesis by (simp only: 1)
next
  case 2
  then show ?thesis by simp
qed

lemma draw_index_less:
  assumes "0 < n"
  shows "nat \<lfloor>times_double (draw_val r) (real n)\<rfloor> < n"
proof -
  define x where "x = draw_val r * real n"
  have x0: "0 \<le> x" using draw_val_bounds(1) [of r] by (simp add: x_def)
  have xn: "x < real n" using draw_val_bounds(2) [of r] assms by (simp add: x_def)
  have "real n * draw_val r \<le> real n * (1 - 1 / 2 ^ 53)"
    by (intro mult_left_mono draw_val_le) simp
  then have gap: "real n / 2 ^ 53 \<le> real n - x" by (simp add: x_def algebra_simps)
  have n1: "1 \<le> real n" using assms by simp
  have "quantum x / 2 < real n / 2 ^ 53"
    using quantum_bound [OF x0]
  proof
    assume "quantum x = 1 / 2 ^ 1074"
    then have "quantum x / 2 < 1 / 2 ^ 53" by simp
    also have "\<dots> \<le> real n / 2 ^ 53" using n1 by (intro divide_right_mono) simp_all
    finally show ?thesis .
  next
    assume "quantum x \<le> x / 2 ^ 52"
    then have "quantum x / 2 \<le> x / 2 ^ 53" by simp
    also have "\<dots> < real n / 2 ^ 53" using xn by (intro divide_strict_right_mono) simp_all
    finally show ?thesis .
  qed
  with gap to_double_error [of x] have "to_double x < real n" by linarith
  then have "\<lfloor>to_double x\<rfloor> < int n" by (simp add: floor_less_iff)
  then show ?thesis
    using assms unfolding times_double_def x_def
    by (cases "0 \<le> \<lfloor>to_double (draw_val r * real n)\<rfloor>") (simp_all add: nat_less_iff)
qed

lemma draw_index_near:
  fixes r :: draw and n :: nat
  assumes "0 < n" "n \<le> 2 ^ 53"
  defines "x \<equiv> draw_val r * real n"
  defines "k \<equiv> nat \<lfloor>times_double (draw_val r) (real n)\<rfloor>"
  shows "k = nat \<lfloor>x\<rfloor> \<or> k = nat \<lfloor>x\<rfloor> + 1 \<and> real k - x \<le> x / 2 ^ 53"
proof -
  define y where "y = to_double x"
  have x0: "0 \<le> x" using draw_val_bounds(1) [of r] by (simp add: x_def)
  have "x < real n" using draw_val_bounds(2) [of r] assms(1) by (simp add: x_def)
  also have "real n \<le> real (2 ^ 53)" using assms(2) by (rule of_nat_mono)
  finally have x53: "x < 2 ^ 53" by simp
  have lo: "of_int \<lfloor>x\<rfloor> \<le> y" unfolding y_def
    by (rule to_double_bracket(1) [OF x0 x53]) (rule of_int_floor_le)
  have "x \<le> of_int (\<lfloor>x\<rfloor> + 1)" by linarith
  then have hi: "y \<le> of_int (\<lfloor>x\<rfloor> + 1)" unfolding y_def
    by (rule to_double_bracket(2) [OF x0 x53])
  have f0: "0 \<le> \<lfloor>x\<rfloor>" using x0 by simp
  have k: "k = nat \<lfloor>y\<rfloor>" by (simp add: k_def y_def times_double_def x_def)
  from lo have l: "\<lfloor>x\<rfloor> \<le> \<lfloor>y\<rfloor>" by (simp add: le_floor_iff)
  from hi have h: "\<lfloor>y\<rfloor> \<le> \<lfloor>x\<rfloor> + 1" by (simp add: floor_le_iff)
  show ?thesis
  proof (cases "\<lfloor>y\<rfloor> = \<lfloor>x\<rfloor>")
    case True
    then show ?thesis by (simp add: k)
  next
    case False
    with l h have e: "\<lfloor>y\<rfloor> = \<lfloor>x\<rfloor> + 1" by linarith
    then have k1: "k = nat \<lfloor>x\<rfloor> + 1" using f0 by (simp add: k nat_add_distrib)
    have "of_int \<lfloor>y\<rfloor> \<le> y" by (rule of_int_floor_le)
    with hi e have yk: "y = of_int (\<lfloor>x\<rfloor> + 1)" by simp
    have rk: "real k = y" unfolding yk k1 using f0 by simp
    have y1: "1 \<le> y" unfolding yk using f0 by simp
    have err: "y - x \<le> quantum x / 2" using to_double_error [of x] unfolding y_def by linarith
    have "quantum x \<le> x / 2 ^ 52"
      using quantum_bound [OF x0]
    proof
      assume q: "quantum x = 1 / 2 ^ 1074"
      with err y1 have "1 / 2 \<le> x" by simp
      then have "(1 / 2) / 2 ^ 52 \<le> x / 2 ^ 52" by (intro divide_right_mono) simp_all
      then show ?thesis by (simp add: q)
    qed
    with err have "y - x \<le> x / 2 ^ 53" by simp
    with k1 rk show ?thesis by simp
  qed
qed

lemma times_double_power_of_2:
  "times_double (draw_val r) (real (2 ^ j)) = draw_val r * real (2 ^ j)"
proof -
  from draw_val [of r] obtain m e where
    m: "m < 2 ^ 53" and e: "e \<le> 1074" and r: "draw_val r = real m / 2 ^ e" by auto
  from e have "(2::real) ^ 1074 = 2 ^ e * 2 ^ (1074 - e)"
    by (simp only: power_add [symmetric] le_add_diff_inverse)
  then have "real m * 2 ^ (j + (1074 - e)) / 2 ^ 1074 =
      real m * (2 ^ j * 2 ^ (1074 - e)) / (2 ^ e * 2 ^ (1074 - e))"
    by (simp only: power_add)
  also have "\<dots> = real m / 2 ^ e * 2 ^ j" by simp
  finally have "draw_val r * real (2 ^ j) = real m * 2 ^ (j + (1074 - e)) / 2 ^ 1074"
    by (simp add: r)
  then show ?thesis
    unfolding times_double_def using to_double_exact [OF m, of "j + (1074 - e)"] by (simp only:)
qed

lemma times_double_0: "times_double 0 y = 0"
  by (simp add: times_double_def to_double_def nearest_even_def)

lemma draw_index_onto:
  assumes "i < n" "n \<le> 2 ^ 52"
  shows "\<exists>r. nat \<lfloor>times_double (draw_val r) (real n)\<rfloor> = i"
proof -
  define M where "M = (i * 2 ^ 53 + (n - 1)) div n"
  define x where "x = real M / 2 ^ 53 * real n"
  have n0: "0 < n" using assms(1) by simp
  have up: "M * n \<le> i * 2 ^ 53 + (n - 1)" unfolding M_def by simp
  have "i * 2 ^ 53 + (n - 1) < (M + 1) * n"
    using dividend_less_div_times [OF n0, of "i * 2 ^ 53 + (n - 1)"]
    by (simp add: M_def algebra_simps)
  then have lo: "i * 2 ^ 53 \<le> M * n" using n0 by simp
  have "real (i * 2 ^ 53) \<le> real (M * n)" using lo by (rule of_nat_mono)
  then have xi: "real i \<le> x" by (simp add: x_def field_simps)
  have "real (M * n) \<le> real (i * 2 ^ 53 + (n - 1))" using up by (rule of_nat_mono)
  also have "\<dots> < real i * 2 ^ 53 + real n" using n0 by simp
  finally have "x < real i + real n / 2 ^ 53" by (simp add: x_def field_simps)
  moreover have "real n \<le> real (2 ^ 52)" using assms(2) by (rule of_nat_mono)
  then have nh: "real n / 2 ^ 53 \<le> 1 / 2" by simp
  ultimately have xh: "x < real i + 1 / 2" by linarith
  have "x < real n"
  proof -
    from assms(1) have "Suc i \<le> n" by simp
    then have "real (Suc i) \<le> real n" by (rule of_nat_mono)
    then have "real i + 1 \<le> real n" by simp
    with xh show ?thesis by linarith
  qed
  then have "real M / 2 ^ 53 < 1" using n0 by (simp add: x_def)
  then have M53: "real M < 2 ^ 53" by simp
  then have "real M < real (2 ^ 53)" by simp
  then have "M < 2 ^ 53" by (simp only: of_nat_less_iff)
  then have "\<exists>m e. m < 2 ^ 53 \<and> e \<le> 1074 \<and> real M / 2 ^ 53 = real m / 2 ^ e"
    by (intro exI [of _ M] exI [of _ 53]) simp
  with M53 have v: "draw_val (Draw (real M / 2 ^ 53)) = real M / 2 ^ 53"
    by (intro Draw_inverse) simp
  have fl: "nat \<lfloor>x\<rfloor> = i"
  proof -
    have "\<lfloor>x\<rfloor> = int i" using xi xh by (simp add: floor_eq_iff)
    then show ?thesis by simp
  qed
  from n0 have n53: "n \<le> 2 ^ 53" using assms(2) by simp
  from draw_index_near [OF n0 n53, of "Draw (real M / 2 ^ 53)"]
  have "nat \<lfloor>times_double (real M / 2 ^ 53) (real n)\<rfloor> = i \<or>
        nat \<lfloor>times_double (real M / 2 ^ 53) (real n)\<rfloor> = i + 1 \<and>
        real (nat \<lfloor>times_double (real M / 2 ^ 53) (real n)\<rfloor>) - x \<le> x / 2 ^ 53"
    unfolding v x_def [symmetric] fl .
  moreover have "\<not> real (i + 1) - x \<le> x / 2 ^ 53"
  proof -
    have "x / 2 ^ 53 < real n / 2 ^ 53" using \<open>x < real n\<close> by (intro divide_strict_right_mono) simp_all
    with nh xh show ?thesis by simp
  qed
  ultimately have "nat \<lfloor>times_double (real M / 2 ^ 53) (real n)\<rfloor> = i" by auto
  then have "nat \<lfloor>times_double (draw_val (Draw (real M / 2 ^ 53))) (real n)\<rfloor> = i"
    by (simp only: v)
  then show ?thesis ..
qed

lemma floor_index_iff:
  assumes "0 < n" "0 \<le> r"
  shows "nat \<lfloor>r * real n\<rfloor> = i \<longleftrightarrow> real i / real n \<le> r \<and> r < (real i + 1) / real n"
proof -
  have nn: "0 \<le> \<lfloor>r * real n\<rfloor>" using assms(2) by simp
  have "nat \<lfloor>r * real n\<rfloor> = i \<longleftrightarrow> \<lfloor>r * real n\<rfloor> = int i"
    using nn by linarith
  also have "\<dots> \<longleftrightarrow> real i \<le> r * real n \<and> r * real n < real i + 1"
    by (simp add: floor_eq_iff)
  also have "\<dots> \<longleftrightarrow> real i / real n \<le> r \<and> r < (real i + 1) / real n"
    using assms(1) by (simp add: pos_divide_le_eq pos_less_divide_eq)
  finally show ?thesis .
qed

section \<open>Spawning\<close>

lemma addNewTile_unfold:
  "addNewTile g r1 r2 now b =
     (let es = emptyTiles g b in
      if length es > 0 then
        (case es ! nat \<lfloor>times_double (draw_val r1) (real (length es))\<rfloor> of
           (r, c) \<Rightarrow>
             b @ [\<lparr>tvalue = (if draw_val r2 < 9 / 10 then 2 else 4),
                   tid = digits (nat r) @ ''-'' @ digits (nat c) @ ''-'' @ digits now,
                   justMerged = False, isNew = True, row = r, col = c\<rparr>])
      else b)"
  by (simp only: addNewTile_def nine_tenths_def draw_below_literal)

lemma addNewTile_at:
  fixes g :: int and b :: "Tile list" and r1 :: draw
  assumes "emptyTiles g b \<noteq> []"
  defines "k \<equiv> nat \<lfloor>times_double (draw_val r1) (real (length (emptyTiles g b)))\<rfloor>"
  shows "addNewTile g r1 r2 now b =
     b @ [\<lparr>tvalue = (if draw_val r2 < 9 / 10 then 2 else 4),
           tid = digits (nat (fst (emptyTiles g b ! k))) @ ''-'' @
                 digits (nat (snd (emptyTiles g b ! k))) @ ''-'' @ digits now,
           justMerged = False, isNew = True,
           row = fst (emptyTiles g b ! k), col = snd (emptyTiles g b ! k)\<rparr>]"
  using assms(1) by (simp add: addNewTile_unfold k_def Let_def split: prod.splits)

lemma set_emptyTiles:
  "set (emptyTiles g b) =
     {(r, c). 0 \<le> r \<and> r < g \<and> 0 \<le> c \<and> c < g \<and> \<not> (\<exists>tile \<in> set b. row tile = r \<and> col tile = c)}"
  by (auto simp: emptyTiles_def list_ex_iff)

lemma concat_rows_product:
  "concat (map (\<lambda>r. map (\<lambda>c. (r, c)) (filter (Q r) cs)) rs) =
     filter (\<lambda>p. Q (fst p) (snd p)) (List.product rs cs)"
  by (induction rs) (simp_all add: filter_map comp_def)

lemma distinct_emptyTiles: "distinct (emptyTiles g b)"
  unfolding emptyTiles_def concat_rows_product
  by (simp add: distinct_product)

text \<open>
  Claim C7, as the code has it. On a board with an empty cell \<^verbatim>\<open>addNewTile\<close> appends exactly
  one tile. With \<open>n\<close> empty cells, listed without repetition, the tile goes to the cell of
  index \<open>k\<close>, the floor of the double product of the first draw and \<open>n\<close>, and \<open>k\<close> is below
  \<open>n\<close>. The cells share the draws evenly up to the rounding of that product: a first draw in
  the interval from \<open>i / n\<close> to \<open>(i + 1) / n\<close>, an interval of length \<open>1 / n\<close> for every empty
  cell, picks the cell of index \<open>i\<close>, or the next cell when the product rounds to \<open>i + 1\<close>,
  which takes the exact product \<open>x\<close> within \<open>x / 2 ^ 53\<close> of \<open>i + 1\<close>. When \<open>n\<close> is a power of
  two, as on the empty board of four by four cells, the product is exact and the cell of
  index \<open>i\<close> is picked by the draws of its interval and no others. Every empty cell is
  picked by some draw. The value of the tile is 2 exactly when the second draw is below 0.9
  and 4 otherwise. On a board without an empty cell the board is returned unchanged. The
  bounds on \<open>n\<close> hold of every array, which has fewer than \<open>2 ^ 32\<close> elements.
\<close>

theorem addNewTile_spawn:
  fixes g :: int and b :: "Tile list" and r1 :: draw
  defines "es \<equiv> emptyTiles g b"
  defines "n \<equiv> length (emptyTiles g b)"
  defines "x \<equiv> draw_val r1 * real (length (emptyTiles g b))"
  defines "k \<equiv> nat \<lfloor>times_double (draw_val r1) (real (length (emptyTiles g b)))\<rfloor>"
  shows "set es = {(r, c). in_grid g r c \<and> \<not> occupied b r c} \<and> distinct es \<and>
    (es \<noteq> [] \<longrightarrow>
       k < n \<and>
       addNewTile g r1 r2 now b =
         b @ [\<lparr>tvalue = (if draw_val r2 < 9 / 10 then 2 else 4),
               tid = digits (nat (fst (es ! k))) @ ''-'' @ digits (nat (snd (es ! k))) @ ''-'' @ digits now,
               justMerged = False, isNew = True, row = fst (es ! k), col = snd (es ! k)\<rparr>] \<and>
       (n \<le> 2 ^ 53 \<longrightarrow>
          (\<forall>i. real i / real n \<le> draw_val r1 \<and> draw_val r1 < (real i + 1) / real n \<longrightarrow>
               k = i \<or> k = i + 1 \<and> real (i + 1) - x \<le> x / 2 ^ 53)) \<and>
       ((\<exists>j. n = 2 ^ j) \<longrightarrow>
          (\<forall>i. real i / real n \<le> draw_val r1 \<and> draw_val r1 < (real i + 1) / real n \<longleftrightarrow> i = k)) \<and>
       (n \<le> 2 ^ 52 \<longrightarrow>
          (\<forall>i < n. \<exists>r. addNewTile g r r2 now b =
             b @ [\<lparr>tvalue = (if draw_val r2 < 9 / 10 then 2 else 4),
                   tid = digits (nat (fst (es ! i))) @ ''-'' @ digits (nat (snd (es ! i))) @ ''-'' @ digits now,
                   justMerged = False, isNew = True, row = fst (es ! i), col = snd (es ! i)\<rparr>]))) \<and>
    (es = [] \<longrightarrow> addNewTile g r1 r2 now b = b)"
proof -
  have 1: "set es = {(r, c). in_grid g r c \<and> \<not> occupied b r c}"
    by (simp add: es_def set_emptyTiles in_grid_def occupied_def)
  have 2: "distinct es"
    by (simp add: es_def distinct_emptyTiles)
  have 3: "es = [] \<longrightarrow> addNewTile g r1 r2 now b = b"
    by (simp add: addNewTile_unfold es_def)
  have 4: "k < n" if "es \<noteq> []"
    unfolding k_def n_def [symmetric] using that by (intro draw_index_less) (simp add: n_def es_def)
  have 5: "addNewTile g r1 r2 now b =
         b @ [\<lparr>tvalue = (if draw_val r2 < 9 / 10 then 2 else 4),
               tid = digits (nat (fst (es ! k))) @ ''-'' @ digits (nat (snd (es ! k))) @ ''-'' @ digits now,
               justMerged = False, isNew = True, row = fst (es ! k), col = snd (es ! k)\<rparr>]"
    if "es \<noteq> []"
    using that unfolding es_def k_def by (rule addNewTile_at)
  have 6: "k = i \<or> k = i + 1 \<and> real (i + 1) - x \<le> x / 2 ^ 53"
    if "es \<noteq> []" "n \<le> 2 ^ 53"
      "real i / real n \<le> draw_val r1 \<and> draw_val r1 < (real i + 1) / real n" for i
  proof -
    have pos: "0 < n" using that(1) by (simp add: n_def es_def)
    from that(3) have f: "nat \<lfloor>x\<rfloor> = i"
      unfolding x_def n_def [symmetric]
      by (simp only: floor_index_iff [OF pos draw_val_bounds(1)])
    from draw_index_near [OF pos that(2), of r1]
    have "k = nat \<lfloor>x\<rfloor> \<or> k = nat \<lfloor>x\<rfloor> + 1 \<and> real k - x \<le> x / 2 ^ 53"
      by (simp only: k_def x_def n_def)
    then show ?thesis unfolding f by auto
  qed
  have 7: "real i / real n \<le> draw_val r1 \<and> draw_val r1 < (real i + 1) / real n \<longleftrightarrow> i = k"
    if "es \<noteq> []" "\<exists>j. n = 2 ^ j" for i
  proof -
    have pos: "0 < n" using that(1) by (simp add: n_def es_def)
    from that(2) obtain j where j: "n = 2 ^ j" ..
    have "k = nat \<lfloor>x\<rfloor>"
      unfolding k_def x_def n_def [symmetric] j by (simp only: times_double_power_of_2)
    then have "i = k \<longleftrightarrow> nat \<lfloor>draw_val r1 * real n\<rfloor> = i"
      unfolding x_def n_def [symmetric] by auto
    then show ?thesis
      by (simp only: floor_index_iff [OF pos draw_val_bounds(1)])
  qed
  have 8: "\<exists>r. addNewTile g r r2 now b =
             b @ [\<lparr>tvalue = (if draw_val r2 < 9 / 10 then 2 else 4),
                   tid = digits (nat (fst (es ! i))) @ ''-'' @ digits (nat (snd (es ! i))) @ ''-'' @ digits now,
                   justMerged = False, isNew = True, row = fst (es ! i), col = snd (es ! i)\<rparr>]"
    if "es \<noteq> []" "n \<le> 2 ^ 52" "i < n" for i
  proof -
    from draw_index_onto [OF that(3) that(2)] obtain r
      where r: "nat \<lfloor>times_double (draw_val r) (real n)\<rfloor> = i" ..
    then have r': "nat \<lfloor>times_double (draw_val r) (real (length (emptyTiles g b)))\<rfloor> = i"
      by (simp only: n_def)
    from that(1) have "emptyTiles g b \<noteq> []" by (simp add: es_def)
    note at = addNewTile_at [OF this, of r r2 now, unfolded r']
    show ?thesis unfolding es_def by (rule exI [of _ r]) (rule at)
  qed
  from 4 5 6 7 8 have "es \<noteq> [] \<longrightarrow>
       k < n \<and>
       addNewTile g r1 r2 now b =
         b @ [\<lparr>tvalue = (if draw_val r2 < 9 / 10 then 2 else 4),
               tid = digits (nat (fst (es ! k))) @ ''-'' @ digits (nat (snd (es ! k))) @ ''-'' @ digits now,
               justMerged = False, isNew = True, row = fst (es ! k), col = snd (es ! k)\<rparr>] \<and>
       (n \<le> 2 ^ 53 \<longrightarrow>
          (\<forall>i. real i / real n \<le> draw_val r1 \<and> draw_val r1 < (real i + 1) / real n \<longrightarrow>
               k = i \<or> k = i + 1 \<and> real (i + 1) - x \<le> x / 2 ^ 53)) \<and>
       ((\<exists>j. n = 2 ^ j) \<longrightarrow>
          (\<forall>i. real i / real n \<le> draw_val r1 \<and> draw_val r1 < (real i + 1) / real n \<longleftrightarrow> i = k)) \<and>
       (n \<le> 2 ^ 52 \<longrightarrow>
          (\<forall>i < n. \<exists>r. addNewTile g r r2 now b =
             b @ [\<lparr>tvalue = (if draw_val r2 < 9 / 10 then 2 else 4),
                   tid = digits (nat (fst (es ! i))) @ ''-'' @ digits (nat (snd (es ! i))) @ ''-'' @ digits now,
                   justMerged = False, isNew = True, row = fst (es ! i), col = snd (es ! i)\<rparr>]))"
    by (intro impI conjI allI) blast+
  with 1 2 3 show ?thesis by (intro conjI)
qed

lemma draw_val_Draw:
  assumes "m < 2 ^ e" "m < 2 ^ 53" "e \<le> 1074"
  shows "draw_val (Draw (real m / 2 ^ e)) = real m / 2 ^ e"
proof (rule Draw_inverse, intro CollectI conjI)
  show "0 \<le> real m / 2 ^ e" by simp
  have "real m < real (2 ^ e)" using assms(1) by (simp only: of_nat_less_iff)
  then show "real m / 2 ^ e < 1" by simp
  show "\<exists>m' e'. m' < 2 ^ 53 \<and> e' \<le> 1074 \<and> real m / 2 ^ e = real m' / 2 ^ e'"
    using assms(2,3) by blast
qed

lemma draw_examples:
  "draw_val (Draw (6004799503160661 / 2 ^ 53)) = 6004799503160661 / 2 ^ 53"
  "draw_val (Draw (15 / 16)) = 15 / 16"
  "draw_val (Draw (1 / 2)) = 1 / 2"
  "draw_val (Draw 0) = 0"
  using draw_val_Draw [of 6004799503160661 53] draw_val_Draw [of 15 4] draw_val_Draw [of 1 1]
    draw_val_Draw [of 0 0]
  by simp_all


lemma to_double_binade:
  assumes "2 ^ j \<le> x" "x < 2 ^ Suc j"
  shows "to_double x = of_int (nearest_even (x / (2 ^ j / 2 ^ 52))) * (2 ^ j / 2 ^ 52)"
  by (simp only: to_double_def quantum_binade [OF assms])

lemma times_double_example: "times_double (6004799503160661 / 2 ^ 53) (real 3) = 2"
proof -
  define x :: real where "x = 6004799503160661 / 2 ^ 53 * real 3"
  have "2 ^ 0 \<le> x" "x < 2 ^ Suc 0" by (simp_all add: x_def)
  then have t: "to_double x = of_int (nearest_even (x / (2 ^ 0 / 2 ^ 52))) * (2 ^ 0 / 2 ^ 52)"
    by (rule to_double_binade)
  have z: "x / (2 ^ 0 / 2 ^ 52) = 18014398509481983 / 2" by (simp add: x_def)
  have n: "nearest_even (18014398509481983 / 2) = 9007199254740992"
    by (simp add: nearest_even_def)
  have "to_double x = of_int 9007199254740992 * (2 ^ 0 / 2 ^ 52)"
    by (simp only: t z n)
  then have "to_double x = 2" by simp
  then show ?thesis by (simp only: times_double_def x_def)
qed


theorem addNewTile_spawn_witness:
  "emptyTiles 2 [tile0] = [(0, 1), (1, 0), (1, 1)] \<and>
   (1::real) / 3 \<le> 6004799503160661 / 2 ^ 53 \<and> (6004799503160661::real) / 2 ^ 53 < 2 / 3 \<and>
   addNewTile 2 (Draw (6004799503160661 / 2 ^ 53)) (Draw (15 / 16)) 7 [tile0] =
     [tile0, \<lparr>tvalue = 4, tid = ''1-1-7'', justMerged = False, isNew = True, row = 1, col = 1\<rparr>] \<and>
   addNewTile 4 (Draw (1 / 2)) (Draw 0) 7 [] =
     [\<lparr>tvalue = 2, tid = ''2-0-7'', justMerged = False, isNew = True, row = 2, col = 0\<rparr>] \<and>
   emptyTiles 1 [tile0] = [] \<and>
   addNewTile 1 (Draw (1 / 2)) (Draw (15 / 16)) 7 [tile0] = [tile0]"
proof -
  have e: "emptyTiles 2 [tile0] = [(0, 1), (1, 0), (1, 1)]"
    by (simp add: emptyTiles_def tile0_def upto.simps)
  have f: "emptyTiles 1 [tile0] = []"
    by (simp add: emptyTiles_def tile0_def upto.simps)
  have h: "emptyTiles 4 [] =
      [(0, 0), (0, 1), (0, 2), (0, 3), (1, 0), (1, 1), (1, 2), (1, 3),
       (2, 0), (2, 1), (2, 2), (2, 3), (3, 0), (3, 1), (3, 2), (3, 3)]"
    by (simp add: emptyTiles_def upto.simps)
  have d: "digits 0 = ''0''" "digits (Suc 0) = ''1''" "digits 2 = ''2''" "digits 7 = ''7''"
    by code_simp+
  have i: "(1::real) / 3 \<le> 6004799503160661 / 2 ^ 53" "(6004799503160661::real) / 2 ^ 53 < 2 / 3"
    by simp_all
  have l3: "length [(0, 1), (1, 0), (1::int, 1::int)] = 3" by simp
  have ne: "emptyTiles 2 [tile0] \<noteq> []" by (simp add: e)
  note s = addNewTile_spawn [of 2 "[tile0]" "Draw (6004799503160661 / 2 ^ 53)" "Draw (15 / 16)" 7,
      THEN conjunct2, THEN conjunct2, THEN conjunct1, THEN mp, OF ne, THEN conjunct2, THEN conjunct1]
  have a: "addNewTile 2 (Draw (6004799503160661 / 2 ^ 53)) (Draw (15 / 16)) 7 [tile0] =
     [tile0, \<lparr>tvalue = 4, tid = ''1-1-7'', justMerged = False, isNew = True, row = 1, col = 1\<rparr>]"
    using s unfolding e draw_examples l3 times_double_example by (simp add: d)
  have ne4: "emptyTiles 4 [] \<noteq> []" by (simp add: h)
  note t = addNewTile_spawn [of 4 "[]" "Draw (1 / 2)" "Draw 0" 7,
      THEN conjunct2, THEN conjunct2, THEN conjunct1, THEN mp, OF ne4]
  have "\<exists>j. length (emptyTiles 4 []) = 2 ^ j" by (rule exI [of _ 4]) (simp add: h)
  note u = t [THEN conjunct2, THEN conjunct2, THEN conjunct2, THEN conjunct1, THEN mp, OF this,
      THEN spec, of 8]
  have k: "nat \<lfloor>times_double (1 / 2) (real (length (emptyTiles 4 [])))\<rfloor> = 8"
    using u unfolding draw_examples by (simp add: h)
  have c: "addNewTile 4 (Draw (1 / 2)) (Draw 0) 7 [] =
     [\<lparr>tvalue = 2, tid = ''2-0-7'', justMerged = False, isNew = True, row = 2, col = 0\<rparr>]"
    using t [THEN conjunct2, THEN conjunct1] unfolding draw_examples k by (simp add: h d)
  have b: "addNewTile 1 (Draw (1 / 2)) (Draw (15 / 16)) 7 [tile0] = [tile0]"
    using addNewTile_spawn [of 1 "[tile0]" "Draw (1 / 2)" "Draw (15 / 16)" 7,
      THEN conjunct2, THEN conjunct2, THEN conjunct2]
    unfolding f by simp
  from e i a c f b show ?thesis by (intro conjI)
qed

lemma times_double_second_example: "times_double (3752999689475413 / 2 ^ 52) (real 6) = 5"
proof -
  define x :: real where "x = 3752999689475413 / 2 ^ 52 * real 6"
  have "2 ^ 2 \<le> x" "x < 2 ^ Suc 2" by (simp_all add: x_def)
  then have t: "to_double x = of_int (nearest_even (x / (2 ^ 2 / 2 ^ 52))) * (2 ^ 2 / 2 ^ 52)"
    by (rule to_double_binade)
  have z: "x / (2 ^ 2 / 2 ^ 52) = 11258999068426239 / 2" by (simp add: x_def)
  have n: "nearest_even (11258999068426239 / 2) = 5629499534213120"
    by (simp add: nearest_even_def)
  have "to_double x = of_int 5629499534213120 * (2 ^ 2 / 2 ^ 52)"
    by (simp only: t z n)
  then have "to_double x = 5" by simp
  then show ?thesis by (simp only: times_double_def x_def)
qed

text \<open>
  The claim C7 as the specification states it, every cell picked by the draws of one of \<open>n\<close>
  equal intervals, fails by the rounding of the product: with six empty cells the draw
  \<open>3752999689475413 / 2 ^ 52\<close> lies in the fifth interval, from 4/6 to 5/6, its product with
  6 rounds to 5, and the tile goes to the sixth empty cell.
\<close>

theorem addNewTile_counterexample:
  "emptyTiles 3 [tile_at 2 0 0, tile_at 4 0 1, tile_at 2 0 2] =
     [(1, 0), (1, 1), (1, 2), (2, 0), (2, 1), (2, 2)] \<and>
   (4::real) / 6 \<le> 3752999689475413 / 2 ^ 52 \<and> (3752999689475413::real) / 2 ^ 52 < 5 / 6 \<and>
   addNewTile 3 (Draw (3752999689475413 / 2 ^ 52)) (Draw 0) 7
       [tile_at 2 0 0, tile_at 4 0 1, tile_at 2 0 2] =
     [tile_at 2 0 0, tile_at 4 0 1, tile_at 2 0 2,
      \<lparr>tvalue = 2, tid = ''2-2-7'', justMerged = False, isNew = True, row = 2, col = 2\<rparr>]"
proof -
  have e: "emptyTiles 3 [tile_at 2 0 0, tile_at 4 0 1, tile_at 2 0 2] =
     [(1, 0), (1, 1), (1, 2), (2, 0), (2, 1), (2, 2)]"
    by (simp add: emptyTiles_def tile_at_def upto.simps)
  have d: "digits 2 = ''2''" "digits 7 = ''7''" by code_simp+
  have v: "draw_val (Draw (3752999689475413 / 2 ^ 52)) = 3752999689475413 / 2 ^ 52"
    using draw_val_Draw [of 3752999689475413 52] by simp
  have l: "length [(1, 0), (1, 1), (1, 2), (2, 0), (2, 1), (2::int, 2::int)] = 6" by simp
  have ne: "emptyTiles 3 [tile_at 2 0 0, tile_at 4 0 1, tile_at 2 0 2] \<noteq> []" by (simp add: e)
  have i: "(4::real) / 6 \<le> 3752999689475413 / 2 ^ 52" "(3752999689475413::real) / 2 ^ 52 < 5 / 6"
    by simp_all
  have a: "addNewTile 3 (Draw (3752999689475413 / 2 ^ 52)) (Draw 0) 7
       [tile_at 2 0 0, tile_at 4 0 1, tile_at 2 0 2] =
     [tile_at 2 0 0, tile_at 4 0 1, tile_at 2 0 2,
      \<lparr>tvalue = 2, tid = ''2-2-7'', justMerged = False, isNew = True, row = 2, col = 2\<rparr>]"
    using addNewTile_at [OF ne, of "Draw (3752999689475413 / 2 ^ 52)" "Draw 0" 7]
    unfolding e v draw_examples l times_double_second_example by (simp add: d)
  from e i a show ?thesis by (intro conjI)
qed

section \<open>The terminal test\<close>

lemma positions_card:
  assumes "valid_board g b"
  shows "card ((\<lambda>tile. (row tile, col tile)) ` set b) = length b"
proof -
  from assms have "distinct (map (\<lambda>tile. (row tile, col tile)) b)"
    by (simp add: valid_board_def)
  then have "card (set (map (\<lambda>tile. (row tile, col tile)) b)) =
             length (map (\<lambda>tile. (row tile, col tile)) b)"
    by (rule distinct_card)
  then show ?thesis by simp
qed

lemma positions_subset:
  assumes "valid_board g b"
  shows "(\<lambda>tile. (row tile, col tile)) ` set b \<subseteq> {0..<g} \<times> {0..<g}"
  using assms by (auto simp: valid_board_def in_grid_def)

lemma card_grid: "card ({0..<g} \<times> {0..<g} :: (int \<times> int) set) = nat g * nat g"
  by (simp add: card_cartesian_product)

lemma valid_board_length_le:
  assumes "valid_board g b"
  shows "int (length b) \<le> g * g"
proof -
  have le: "length b \<le> nat g * nat g"
    using card_mono [OF _ positions_subset [OF assms]] positions_card [OF assms] card_grid [of g]
    by simp
  show ?thesis
  proof (cases "0 \<le> g")
    case True
    then have "int (nat g * nat g) = g * g" by simp
    with le show ?thesis by linarith
  next
    case False
    then have "nat g = 0" by simp
    with le have "length b = 0" by simp
    then show ?thesis by simp
  qed
qed

lemma occupied_positions:
  "occupied b r c \<longleftrightarrow> (r, c) \<in> (\<lambda>tile. (row tile, col tile)) ` set b"
  unfolding occupied_def image_iff by auto

lemma in_grid_product: "in_grid g r c \<longleftrightarrow> (r, c) \<in> {0..<g} \<times> {0..<g}"
  by (simp add: in_grid_def)

lemma all_occupied_iff:
  "(\<forall>r c. in_grid g r c \<longrightarrow> occupied b r c) \<longleftrightarrow>
     {0..<g} \<times> {0..<g} \<subseteq> (\<lambda>tile. (row tile, col tile)) ` set b"
  unfolding occupied_positions in_grid_product by (simp add: subset_iff)

lemma valid_board_full_iff:
  assumes "valid_board g b"
  shows "int (length b) = g * g \<longleftrightarrow>
         0 \<le> g \<and> (\<forall>r c. in_grid g r c \<longrightarrow> occupied b r c)"
proof
  assume len: "int (length b) = g * g"
  have g0: "0 \<le> g"
  proof (rule ccontr)
    assume "\<not> 0 \<le> g"
    then have neg: "g < 0" by simp
    then have "0 < g * g" by (simp add: mult_neg_neg)
    moreover have "{0..<g} = {}" using neg by simp
    then have "(\<lambda>tile. (row tile, col tile)) ` set b = {}"
      using positions_subset [OF assms] by simp
    then have "length b = 0" by simp
    ultimately show False using len by simp
  qed
  then have "int (length b) = int (nat g * nat g)"
    using len by simp
  then have "length b = nat g * nat g"
    by (simp only: of_nat_eq_iff)
  then have "card ((\<lambda>tile. (row tile, col tile)) ` set b) = card ({0..<g} \<times> {0..<g})"
    using positions_card [OF assms] card_grid [of g] by simp
  then have "(\<lambda>tile. (row tile, col tile)) ` set b = {0..<g} \<times> {0..<g}"
    by (intro card_subset_eq positions_subset [OF assms]) simp_all
  then have "\<forall>r c. in_grid g r c \<longrightarrow> occupied b r c"
    unfolding all_occupied_iff by simp
  with g0 show "0 \<le> g \<and> (\<forall>r c. in_grid g r c \<longrightarrow> occupied b r c)" by simp
next
  assume a: "0 \<le> g \<and> (\<forall>r c. in_grid g r c \<longrightarrow> occupied b r c)"
  then have "{0..<g} \<times> {0..<g} \<subseteq> (\<lambda>tile. (row tile, col tile)) ` set b"
    unfolding all_occupied_iff by simp
  then have "card ({0..<g} \<times> {0..<g}) \<le> card ((\<lambda>tile. (row tile, col tile)) ` set b)"
    by (intro card_mono) simp_all
  then have "nat g * nat g \<le> length b"
    using positions_card [OF assms] card_grid [of g] by simp
  then have "int (nat g * nat g) \<le> int (length b)" by (simp only: of_nat_le_iff)
  then have "g * g \<le> int (length b)" using a by simp
  with valid_board_length_le [OF assms] show "int (length b) = g * g" by simp
qed

lemma neighbour_scan:
  assumes "valid_board g b"
  shows "((row t > 0 \<and>
            (\<exists>u \<in> set b. row u = row t - 1 \<and> col u = col t \<and> tvalue u = tvalue t)) \<or>
         (row t < g - 1 \<and>
            (\<exists>u \<in> set b. row u = row t + 1 \<and> col u = col t \<and> tvalue u = tvalue t)) \<or>
         (col t > 0 \<and>
            (\<exists>u \<in> set b. row u = row t \<and> col u = col t - 1 \<and> tvalue u = tvalue t)) \<or>
         (col t < g - 1 \<and>
            (\<exists>u \<in> set b. row u = row t \<and> col u = col t + 1 \<and> tvalue u = tvalue t)))
         \<longleftrightarrow> (\<exists>u \<in> set b. adjacent t u \<and> tvalue u = tvalue t)"
    (is "?A \<or> ?B \<or> ?C \<or> ?D \<longleftrightarrow> ?R")
proof -
  have in_b: "\<And>u. u \<in> set b \<Longrightarrow> 0 \<le> row u \<and> row u < g \<and> 0 \<le> col u \<and> col u < g"
    using assms(1) by (simp add: valid_board_def in_grid_def)
  have a: "?A \<longleftrightarrow> (\<exists>u \<in> set b. row u = row t - 1 \<and> col u = col t \<and> tvalue u = tvalue t)"
    using in_b by force
  have b: "?B \<longleftrightarrow> (\<exists>u \<in> set b. row u = row t + 1 \<and> col u = col t \<and> tvalue u = tvalue t)"
    using in_b by force
  have c: "?C \<longleftrightarrow> (\<exists>u \<in> set b. row u = row t \<and> col u = col t - 1 \<and> tvalue u = tvalue t)"
    using in_b by force
  have d: "?D \<longleftrightarrow> (\<exists>u \<in> set b. row u = row t \<and> col u = col t + 1 \<and> tvalue u = tvalue t)"
    using in_b by force
  show ?thesis
    unfolding a b c d adjacent_def by blast
qed

lemma isGameOverState_scan:
  assumes "valid_board g b"
  shows "isGameOverState g b \<longleftrightarrow>
            int (length b) = g * g \<and>
            (\<forall>t \<in> set b. \<forall>u \<in> set b. adjacent t u \<longrightarrow> tvalue u \<noteq> tvalue t)"
proof (cases "int (length b) < g * g")
  case True
  then show ?thesis by (simp add: isGameOverState_def)
next
  case False
  with valid_board_length_le [OF assms] have len: "int (length b) = g * g" by linarith
  have "isGameOverState g b \<longleftrightarrow>
     (\<forall>t \<in> set b. \<not> (\<exists>u \<in> set b. adjacent t u \<and> tvalue u = tvalue t))"
    using False unfolding isGameOverState_def list_ex_iff neighbour_scan [OF assms]
    by simp
  also have "\<dots> \<longleftrightarrow> (\<forall>t \<in> set b. \<forall>u \<in> set b. adjacent t u \<longrightarrow> tvalue u \<noteq> tvalue t)"
    by blast
  finally show ?thesis using len by simp
qed

text \<open>
  Claim C3. On a board whose tiles lie in the grid, one to a cell, \<^verbatim>\<open>isGameOverState\<close> is
  true exactly when the board holds \<open>gridSize * gridSize\<close> tiles, which is when every cell of
  the grid is occupied, and no tile has a neighbour above, below, left or right with its value.
  A board with an empty cell is never game over.
\<close>

theorem isGameOverState_iff:
  assumes "valid_board g b"
  shows "(isGameOverState g b \<longleftrightarrow>
            int (length b) = g * g \<and>
            (\<forall>t \<in> set b. \<forall>u \<in> set b. adjacent t u \<longrightarrow> tvalue u \<noteq> tvalue t)) \<and>
         (int (length b) = g * g \<longleftrightarrow> 0 \<le> g \<and> (\<forall>r c. in_grid g r c \<longrightarrow> occupied b r c)) \<and>
         ((\<exists>r c. in_grid g r c \<and> \<not> occupied b r c) \<longrightarrow> \<not> isGameOverState g b)"
proof (intro conjI)
  show "isGameOverState g b \<longleftrightarrow>
            int (length b) = g * g \<and>
            (\<forall>t \<in> set b. \<forall>u \<in> set b. adjacent t u \<longrightarrow> tvalue u \<noteq> tvalue t)"
    by (rule isGameOverState_scan [OF assms])
  show "int (length b) = g * g \<longleftrightarrow> 0 \<le> g \<and> (\<forall>r c. in_grid g r c \<longrightarrow> occupied b r c)"
    by (rule valid_board_full_iff [OF assms])
  show "(\<exists>r c. in_grid g r c \<and> \<not> occupied b r c) \<longrightarrow> \<not> isGameOverState g b"
    unfolding isGameOverState_scan [OF assms] valid_board_full_iff [OF assms] by blast
qed

theorem isGameOverState_iff_witness:
  "valid_board 4 checkerboard \<and> isGameOverState 4 checkerboard \<and>
   occupied checkerboard 3 3 \<and>
   valid_board 4 (checkerboard[1 := tile_at 2 0 1]) \<and>
   \<not> isGameOverState 4 (checkerboard[1 := tile_at 2 0 1]) \<and>
   valid_board 4 (butlast checkerboard) \<and> \<not> isGameOverState 4 (butlast checkerboard)"
proof -
  have v: "valid_board 4 checkerboard" by code_simp
  have g: "isGameOverState 4 checkerboard" by code_simp
  have l: "int (length checkerboard) = 4 * 4" by code_simp
  have i: "in_grid 4 3 3" by (simp add: in_grid_def)
  from isGameOverState_iff [OF v] l
  have "\<forall>r c. in_grid 4 r c \<longrightarrow> occupied checkerboard r c" by simp
  with i have f: "occupied checkerboard 3 3" by simp
  have v2: "valid_board 4 (checkerboard[1 := tile_at 2 0 1])" by code_simp
  have n: "\<not> isGameOverState 4 (checkerboard[1 := tile_at 2 0 1])" by code_simp
  have v3: "valid_board 4 (butlast checkerboard)" by code_simp
  from i have "in_grid 4 3 3" .
  moreover have "\<not> occupied (butlast checkerboard) 3 3" by code_simp
  ultimately have "\<exists>r c. in_grid 4 r c \<and> \<not> occupied (butlast checkerboard) r c"
    by (intro exI conjI)
  with isGameOverState_iff [OF v3, THEN conjunct2, THEN conjunct2]
  have o: "\<not> isGameOverState 4 (butlast checkerboard)"
    by (rule mp)
  from v g f v2 n v3 o show ?thesis by (intro conjI)
qed

section \<open>Achievements\<close>

lemma maxTile_ge_iff: "v \<le> maxTile b \<longleftrightarrow> v \<le> 0 \<or> (\<exists>t \<in> set b. v \<le> tvalue t)"
  by (induction b) (auto simp: maxTile_def)

lemma set_newAchievements:
  "set (newAchievements s) = {a. threshold_met s a} - set (achievements s)"
  unfolding newAchievements_def threshold_met_def by auto


lemma filter_newAchievements:
  "filter (\<lambda>a. a \<notin> set (achievements s)) (newAchievements s) = newAchievements s"
  by (rule filter_True) (simp add: set_newAchievements)

lemma fst_checkAchievements:
  "fst (checkAchievements s) = s\<lparr>achievements := achievements s @ newAchievements s\<rparr>"
  by (simp add: checkAchievements_def addAchievements_def filter_newAchievements Let_def)






section \<open>The slide of one tile\<close>

lemma slide_unfold:
  "slide d g nb tile r c =
     (if \<not> in_grid g (r + drow d) (c + dcol d) then Stop r c
      else (case find (\<lambda>t. row (snd t) = r + drow d \<and> col (snd t) = c + dcol d) nb of
              Some targetTile \<Rightarrow>
                if tvalue (snd targetTile) = tvalue tile \<and> \<not> justMerged (snd targetTile)
                then Merge targetTile (r + drow d) (c + dcol d)
                else Stop r c
            | None \<Rightarrow> slide d g nb tile (r + drow d) (c + dcol d)))"
  by (subst slide.simps) (auto simp: in_grid_def split: option.split)

lemma slide_induct [case_names step]:
  fixes g :: int and d :: direction
  assumes "\<And>r c. (in_grid g (r + drow d) (c + dcol d) \<Longrightarrow> P (r + drow d) (c + dcol d)) \<Longrightarrow> P r c"
  shows "P r c"
proof (induction "case d of Up \<Rightarrow> nat r | Down \<Rightarrow> nat (g - r) | Left \<Rightarrow> nat c | Right \<Rightarrow> nat (g - c)"
         arbitrary: r c rule: less_induct)
  case less
  show ?case
  proof (rule assms)
    assume "in_grid g (r + drow d) (c + dcol d)"
    then show "P (r + drow d) (c + dcol d)"
      by (intro less) (cases d; simp add: in_grid_def)
  qed
qed

lemma sortKey_keyOf: "sortKey d t = keyOf d (row (snd t)) (col (snd t))"
  by (cases d) (simp_all add: keyOf_def)

lemma keyOf_step: "keyOf d (r + drow d) (c + dcol d) = keyOf d r c - 1"
  by (cases d) (simp_all add: keyOf_def)

lemma slide_Stop_free:
  assumes "slide d g nb tile r c = Stop r' c'"
  shows "(r' = r \<and> c' = c) \<or>
         (in_grid g r' c' \<and> find (\<lambda>t. row (snd t) = r' \<and> col (snd t) = c') nb = None)"
  using assms
proof (induction r c rule: slide_induct [where g = g and d = d])
  case (step r c)
  from step.prems show ?case
    unfolding slide_unfold [of d g nb tile r c]
    using step.IH by (auto split: if_splits option.splits)
qed

lemma slide_Stop_key:
  assumes "slide d g nb tile r c = Stop r' c'"
  shows "keyOf d r' c' \<le> keyOf d r c \<and> (drow d = 0 \<longrightarrow> r' = r) \<and> (dcol d = 0 \<longrightarrow> c' = c)"
  using assms
proof (induction r c rule: slide_induct [where g = g and d = d])
  case (step r c)
  from step.prems show ?case
    unfolding slide_unfold [of d g nb tile r c]
    using step.IH by (auto simp: keyOf_step split: if_splits option.splits)
qed

lemma slide_Stop_blocked:
  assumes "slide d g nb tile r c = Stop r' c'"
  shows "\<not> in_grid g (r' + drow d) (c' + dcol d) \<or>
         (\<exists>t. find (\<lambda>t. row (snd t) = r' + drow d \<and> col (snd t) = c' + dcol d) nb = Some t \<and>
              \<not> (tvalue (snd t) = tvalue tile \<and> \<not> justMerged (snd t)))"
  using assms
proof (induction r c rule: slide_induct [where g = g and d = d])
  case (step r c)
  from step.prems show ?case
    unfolding slide_unfold [of d g nb tile r c]
    using step.IH by (auto split: if_splits option.splits)
qed

lemma slide_Merge:
  assumes "slide d g nb tile r c = Merge t r' c'"
  shows "in_grid g r' c' \<and>
         find (\<lambda>t. row (snd t) = r' \<and> col (snd t) = c') nb = Some t \<and>
         tvalue (snd t) = tvalue tile \<and> \<not> justMerged (snd t) \<and>
         keyOf d r' c' < keyOf d r c \<and> (drow d = 0 \<longrightarrow> r' = r) \<and> (dcol d = 0 \<longrightarrow> c' = c)"
  using assms
proof (induction r c rule: slide_induct [where g = g and d = d])
  case (step r c)
  from step.prems show ?case
    unfolding slide_unfold [of d g nb tile r c]
    using step.IH by (auto simp: keyOf_step split: if_splits option.splits)
qed

section \<open>The loop of \<^verbatim>\<open>move\<close>: what every iteration keeps\<close>

lemma newBoard_addAchievement [simp]:
  "newBoard (addAchievement ach a st) = newBoard st"
  "fresh (addAchievement ach a st) = fresh st"
  "changed (addAchievement ach a st) = changed st"
  "newScore (addAchievement ach a st) = newScore st"
  "mergeHappened (addAchievement ach a st) = mergeHappened st"
  by (simp_all add: addAchievement_def)

lemma newBoard_merge_into:
  "newBoard (merge_into ach x t r' c' st) =
     filter (\<lambda>e. fst e \<noteq> fst t \<and> fst e \<noteq> fst x) (newBoard st) @
       [(fresh st, \<lparr>tvalue = tvalue (snd x) * 2, tid = tid (snd x), justMerged = True,
                    isNew = False, row = r', col = c'\<rparr>)]"
  "fresh (merge_into ach x t r' c' st) = fresh st + 1"
  "changed (merge_into ach x t r' c' st) = True"
  "newScore (merge_into ach x t r' c' st) = newScore st + tvalue (snd x) * 2"
  "mergeHappened (merge_into ach x t r' c' st) = True"
  by (simp_all add: merge_into_def Let_def)

lemma newBoard_relocate:
  "newBoard (relocate ref r c r' c' st) =
     (if r' \<noteq> r \<or> c' \<noteq> c
      then map (\<lambda>t. if fst t = ref then (fst t, (snd t)\<lparr>row := r', col := c'\<rparr>) else t) (newBoard st)
      else newBoard st)"
  "fresh (relocate ref r c r' c' st) = fresh st"
  "newScore (relocate ref r c r' c' st) = newScore st"
  "mergeHappened (relocate ref r c r' c' st) = mergeHappened st"
  "changed (relocate ref r c r' c' st) = (changed st \<or> r' \<noteq> r \<or> c' \<noteq> c)"
  by (auto simp: relocate_def)

lemma fst_inj_on_board:
  "distinct (map fst nb) \<Longrightarrow> a \<in> set nb \<Longrightarrow> b \<in> set nb \<Longrightarrow> fst a = fst b \<Longrightarrow> a = b"
  by (cases a, cases b) (auto dest: eq_key_imp_eq_value)

lemma find_SomeD: "find P xs = Some x \<Longrightarrow> x \<in> set xs \<and> P x"
  by (auto simp: find_Some_iff)

lemma loop_inv_relocate:
  assumes "loop_inv d st (x # rest)"
  shows "loop_inv d (relocate (fst x) r c r' c' st) rest"
proof -
  from assms have d1: "distinct (map fst (newBoard st))"
    and fr: "\<forall>e \<in> set (newBoard st). fst e < fresh st"
    and sub: "set (x # rest) \<subseteq> set (newBoard st)"
    and d2: "distinct (x # rest)"
    and so: "sorted (map (sortKey d) (x # rest))"
    by (simp_all add: loop_inv_def)
  define upd where "upd = (\<lambda>t :: obj. if fst t = fst x then (fst t, (snd t)\<lparr>row := r', col := c'\<rparr>) else t)"
  have fst_upd: "fst (upd e) = fst e" for e
    by (simp add: upd_def)
  have keep: "y \<in> set (map upd (newBoard st))" if "y \<in> set rest" for y
  proof -
    from that sub have y: "y \<in> set (newBoard st)" and x: "x \<in> set (newBoard st)" by auto
    from that d2 have "y \<noteq> x" by auto
    with fst_inj_on_board [OF d1 y x] have "fst y \<noteq> fst x" by blast
    then have "upd y = y" by (simp add: upd_def)
    moreover from y have "upd y \<in> upd ` set (newBoard st)" by (rule imageI)
    ultimately show ?thesis by simp
  qed
  have inv: "loop_inv d (st\<lparr>changed := True, newBoard := map upd (newBoard st)\<rparr>) rest"
    unfolding loop_inv_def
  proof (intro conjI)
    show "distinct (map fst (newBoard (st\<lparr>changed := True, newBoard := map upd (newBoard st)\<rparr>)))"
      using d1 by (simp add: comp_def fst_upd)
    show "\<forall>e\<in>set (newBoard (st\<lparr>changed := True, newBoard := map upd (newBoard st)\<rparr>)).
            fst e < fresh (st\<lparr>changed := True, newBoard := map upd (newBoard st)\<rparr>)"
      using fr by (simp add: fst_upd)
    show "set rest \<subseteq> set (newBoard (st\<lparr>changed := True, newBoard := map upd (newBoard st)\<rparr>))"
      using keep by (simp add: subset_iff)
    show "distinct rest" using d2 by simp
    show "sorted (map (sortKey d) rest)" using so by simp
  qed
  have inv0: "loop_inv d st rest"
    using assms by (simp add: loop_inv_def)
  show ?thesis
    using inv inv0 by (simp add: relocate_def upd_def)
qed


lemma merge_target_facts:
  assumes inv: "loop_inv d st (x # rest)"
    and sl: "slide d g (newBoard st) (snd x) (row (snd x)) (col (snd x)) = Merge t r' c'"
  shows "t \<in> set (newBoard st)" "x \<in> set (newBoard st)" "row (snd t) = r'" "col (snd t) = c'"
    "tvalue (snd t) = tvalue (snd x)" "\<not> justMerged (snd t)" "in_grid g r' c'"
    "sortKey d t < sortKey d x" "t \<noteq> x" "fst t \<noteq> fst x" "t \<notin> set rest"
    "fst x < fresh st" "fst t < fresh st"
    "\<forall>y \<in> set rest. fst y \<noteq> fst x \<and> fst y \<noteq> fst t"
proof -
  note m = slide_Merge [OF sl]
  from m have f: "find (\<lambda>e. row (snd e) = r' \<and> col (snd e) = c') (newBoard st) = Some t"
    by simp
  from find_SomeD [OF f] show t: "t \<in> set (newBoard st)" and tr: "row (snd t) = r'"
    and tc: "col (snd t) = c'" by simp_all
  from inv show x: "x \<in> set (newBoard st)" by (simp add: loop_inv_def)
  from m show "tvalue (snd t) = tvalue (snd x)" "\<not> justMerged (snd t)" "in_grid g r' c'"
    by simp_all
  from m show key: "sortKey d t < sortKey d x"
    by (simp add: sortKey_keyOf tr tc)
  then show ne: "t \<noteq> x" by auto
  from inv have d1: "distinct (map fst (newBoard st))" by (simp add: loop_inv_def)
  from fst_inj_on_board [OF d1 t x] ne show ft: "fst t \<noteq> fst x" by blast
  from inv have so: "\<forall>y \<in> set rest. sortKey d x \<le> sortKey d y"
    by (simp add: loop_inv_def)
  with key show nr: "t \<notin> set rest" by fastforce
  from inv x t show "fst x < fresh st" "fst t < fresh st" by (simp_all add: loop_inv_def)
  show "\<forall>y \<in> set rest. fst y \<noteq> fst x \<and> fst y \<noteq> fst t"
  proof
    fix y assume y: "y \<in> set rest"
    with inv have yb: "y \<in> set (newBoard st)" and "y \<noteq> x"
      by (auto simp: loop_inv_def)
    with fst_inj_on_board [OF d1 yb x] have "fst y \<noteq> fst x" by blast
    moreover from y nr have "y \<noteq> t" by auto
    with fst_inj_on_board [OF d1 yb t] have "fst y \<noteq> fst t" by blast
    ultimately show "fst y \<noteq> fst x \<and> fst y \<noteq> fst t" ..
  qed
qed

lemma loop_inv_merge_into:
  assumes inv: "loop_inv d st (x # rest)"
    and sl: "slide d g (newBoard st) (snd x) (row (snd x)) (col (snd x)) = Merge t r' c'"
  shows "loop_inv d (merge_into ach x t r' c' st) rest"
  unfolding loop_inv_def newBoard_merge_into
proof (intro conjI)
  note f = merge_target_facts [OF inv sl]
  from inv have d1: "distinct (map fst (newBoard st))"
    and fr: "\<forall>e \<in> set (newBoard st). fst e < fresh st"
    and sub: "set rest \<subseteq> set (newBoard st)"
    and d2: "distinct rest"
    and so: "sorted (map (sortKey d) rest)"
    by (simp_all add: loop_inv_def)
  let ?m = "(fresh st, \<lparr>tvalue = tvalue (snd x) * 2, tid = tid (snd x), justMerged = True,
                    isNew = False, row = r', col = c'\<rparr>)"
  let ?keep = "filter (\<lambda>e. fst e \<noteq> fst t \<and> fst e \<noteq> fst x) (newBoard st)"
  have "distinct (map fst ?keep)"
    using d1 by (simp add: distinct_map_filter)
  moreover have "fresh st \<notin> fst ` set ?keep"
    using fr by auto
  ultimately show "distinct (map fst (?keep @ [?m]))"
    by simp
  show "\<forall>e \<in> set (?keep @ [?m]). fst e < fresh st + 1"
    using fr by auto
  show "set rest \<subseteq> set (?keep @ [?m])"
    using sub f(14) by auto
  show "distinct rest" by (rule d2)
  show "sorted (map (sortKey d) rest)" by (rule so)
qed

lemma relocate_merge_into:
  assumes inv: "loop_inv d st (x # rest)"
    and sl: "slide d g (newBoard st) (snd x) (row (snd x)) (col (snd x)) = Merge t r' c'"
  shows "relocate (fst x) r c r' c' (merge_into ach x t r' c' st) = merge_into ach x t r' c' st"
proof -
  note f = merge_target_facts [OF inv sl]
  have "map (\<lambda>e. if fst e = fst x then (fst e, (snd e)\<lparr>row := r', col := c'\<rparr>) else e)
          (newBoard (merge_into ach x t r' c' st)) = newBoard (merge_into ach x t r' c' st)"
    unfolding newBoard_merge_into using f(12) by (intro map_idI) auto
  then show ?thesis
    by (simp add: relocate_def newBoard_merge_into)
qed

lemma move_tile_Merge:
  assumes inv: "loop_inv d st (x # rest)"
    and sl: "slide d g (newBoard st) (snd x) (row (snd x)) (col (snd x)) = Merge t r' c'"
  shows "move_tile d g ach st x = merge_into ach x t r' c' st"
  by (simp add: move_tile_def sl relocate_merge_into [OF inv sl])

lemma move_tile_Stop:
  assumes "slide d g (newBoard st) (snd x) (row (snd x)) (col (snd x)) = Stop r' c'"
  shows "move_tile d g ach st x = relocate (fst x) (row (snd x)) (col (snd x)) r' c' st"
  by (simp add: move_tile_def assms)

lemma loop_inv_move_tile:
  assumes "loop_inv d st (x # rest)"
  shows "loop_inv d (move_tile d g ach st x) rest"
proof (cases "slide d g (newBoard st) (snd x) (row (snd x)) (col (snd x))")
  case (Stop r' c')
  then show ?thesis
    by (simp add: move_tile_Stop loop_inv_relocate [OF assms])
next
  case (Merge t r' c')
  then show ?thesis
    by (simp add: move_tile_Merge [OF assms] loop_inv_merge_into [OF assms])
qed

lemma foldl_rest_invariant:
  assumes "I st xs"
    and "\<And>st x rest. I st (x # rest) \<Longrightarrow> I (f st x) rest"
  shows "I (foldl f st xs) []"
  using assms(1)
proof (induction xs arbitrary: st)
  case Nil
  then show ?case by simp
next
  case (Cons x xs)
  from assms(2) [OF Cons.prems] have "I (f st x) xs" .
  from Cons.IH [OF this] show ?case by simp
qed

lemma foldl_take_invariant:
  assumes "I st xs"
    and "\<And>st x rest. I st (x # rest) \<Longrightarrow> I (f st x) rest"
  shows "I (foldl f st (take k xs)) (drop k xs)"
  using assms(1)
proof (induction xs arbitrary: st k)
  case Nil
  then show ?case by simp
next
  case (Cons x xs)
  show ?case
  proof (cases k)
    case 0
    with Cons.prems show ?thesis by simp
  next
    case (Suc m)
    from assms(2) [OF Cons.prems] have "I (f st x) xs" .
    from Cons.IH [OF this, of m] show ?thesis by (simp add: Suc)
  qed
qed

lemma map_fst_copies: "map fst (copies b) = [0..<length b]"
  by (simp add: copies_def)

lemma set_copies:
  "set (copies b) = {(i, (b ! i)\<lparr>justMerged := False, isNew := False\<rparr>) | i. i < length b}"
proof -
  have "set (copies b) = {(i, map (\<lambda>tile. tile\<lparr>justMerged := False, isNew := False\<rparr>) b ! i) | i. i < length b}"
    unfolding copies_def set_zip by force
  then show ?thesis by auto
qed

lemma map_snd_copies: "map snd (copies b) = map (\<lambda>tile. tile\<lparr>justMerged := False, isNew := False\<rparr>) b"
  by (simp add: copies_def)

lemma loop_inv_init:
  "loop_inv d (initLoop s) (sort_key (sortKey d) (copies (board s)))"
proof -
  have d: "distinct (map fst (copies (board s)))"
    by (simp add: map_fst_copies)
  then have "distinct (copies (board s))"
    by (simp add: distinct_map)
  moreover have "\<forall>e \<in> set (copies (board s)). fst e < length (board s)"
    by (auto simp: set_copies)
  ultimately show ?thesis
    using d by (simp add: loop_inv_def initLoop_def sorted_sort_key)
qed

lemma resolve_invariant:
  assumes init: "P (initLoop s) (sort_key (sortKey d) (copies (board s)))"
    and step: "\<And>st x rest. loop_inv d st (x # rest) \<Longrightarrow> P st (x # rest) \<Longrightarrow>
                 P (move_tile d (gridSize s) (achievements s) st x) rest"
  shows "P (resolve d s) []"
proof -
  have "loop_inv d (resolve d s) [] \<and> P (resolve d s) []"
    unfolding resolve_def
  proof (rule foldl_rest_invariant [where I = "\<lambda>st rest. loop_inv d st rest \<and> P st rest"])
    show "loop_inv d (initLoop s) (sort_key (sortKey d) (copies (board s))) \<and>
          P (initLoop s) (sort_key (sortKey d) (copies (board s)))"
      using init loop_inv_init by simp
  next
    fix st x rest
    assume "loop_inv d st (x # rest) \<and> P st (x # rest)"
    then show "loop_inv d (move_tile d (gridSize s) (achievements s) st x) rest \<and>
               P (move_tile d (gridSize s) (achievements s) st x) rest"
      using step loop_inv_move_tile by simp
  qed
  then show ?thesis ..
qed

section \<open>The sum of the tile values\<close>

lemma sum_values_relocate:
  "sum_values (map snd (newBoard (relocate ref r c r' c' st))) = sum_values (map snd (newBoard st))"
  unfolding newBoard_relocate sum_values_def
  by (auto simp: comp_def intro!: arg_cong [where f = sum_list])

lemma distinct_board: "distinct (map fst nb) \<Longrightarrow> distinct nb"
  by (simp add: distinct_map)

lemma filter_absent_ref:
  "a \<notin> fst ` set ys \<Longrightarrow> filter (\<lambda>e. fst e \<noteq> a) ys = ys"
  by (induction ys) auto

lemma sum_list_remove_one:
  fixes f :: "obj \<Rightarrow> int"
  assumes "distinct (map fst ys)" and "y \<in> set ys"
  shows "sum_list (map f (filter (\<lambda>e. fst e \<noteq> fst y) ys)) = sum_list (map f ys) - f y"
  using assms
proof (induction ys)
  case Nil
  then show ?case by simp
next
  case (Cons z zs)
  show ?case
  proof (cases "y = z")
    case True
    with Cons.prems have "fst y \<notin> fst ` set zs" by auto
    from filter_absent_ref [OF this] True show ?thesis by simp
  next
    case False
    with Cons.prems have yz: "y \<in> set zs" by auto
    then have yi: "fst y \<in> fst ` set zs" by (rule imageI)
    have nz: "fst z \<notin> fst ` set zs" using Cons.prems by simp
    have "fst y \<noteq> fst z"
    proof
      assume "fst y = fst z"
      with yi nz show False by simp
    qed
    with yz Cons.IH Cons.prems show ?thesis by simp
  qed
qed

lemma sum_list_remove_two:
  fixes f :: "obj \<Rightarrow> int"
  assumes d: "distinct (map fst nb)" and t: "t \<in> set nb" and x: "x \<in> set nb" and ne: "fst t \<noteq> fst x"
  shows "sum_list (map f (filter (\<lambda>e. fst e \<noteq> fst t \<and> fst e \<noteq> fst x) nb)) =
         sum_list (map f nb) - f t - f x"
proof -
  let ?ys = "filter (\<lambda>e. fst e \<noteq> fst x) nb"
  have "filter (\<lambda>e. fst e \<noteq> fst t \<and> fst e \<noteq> fst x) nb = filter (\<lambda>e. fst e \<noteq> fst t) ?ys"
    by (simp add: conj_commute)
  moreover have "distinct (map fst ?ys)" using d by (simp add: distinct_map_filter)
  moreover have "t \<in> set ?ys" using t ne by simp
  ultimately have "sum_list (map f (filter (\<lambda>e. fst e \<noteq> fst t \<and> fst e \<noteq> fst x) nb)) =
         sum_list (map f ?ys) - f t"
    using sum_list_remove_one [of ?ys t f] by simp
  also have "sum_list (map f ?ys) = sum_list (map f nb) - f x"
    by (rule sum_list_remove_one [OF d x])
  finally show ?thesis by simp
qed

lemma sum_values_remove_two:
  fixes nb :: "obj list"
  assumes d: "distinct (map fst nb)" and t: "t \<in> set nb" and x: "x \<in> set nb" and ne: "fst t \<noteq> fst x"
  shows "sum_values (map snd (filter (\<lambda>e. fst e \<noteq> fst t \<and> fst e \<noteq> fst x) nb)) =
         sum_values (map snd nb) - tvalue (snd t) - tvalue (snd x)"
  using sum_list_remove_two [OF assms, of "\<lambda>e. tvalue (snd e)"]
  by (simp add: sum_values_def comp_def)

lemma sum_values_merge_into:
  assumes inv: "loop_inv d st (x # rest)"
    and sl: "slide d g (newBoard st) (snd x) (row (snd x)) (col (snd x)) = Merge t r' c'"
  shows "sum_values (map snd (newBoard (merge_into ach x t r' c' st))) =
         sum_values (map snd (newBoard st))"
proof -
  note f = merge_target_facts [OF inv sl]
  from inv have d: "distinct (map fst (newBoard st))" by (simp add: loop_inv_def)
  have "sum_values (map snd (newBoard (merge_into ach x t r' c' st))) =
     sum_values (map snd (filter (\<lambda>e. fst e \<noteq> fst t \<and> fst e \<noteq> fst x) (newBoard st))) +
       tvalue (snd x) * 2"
    by (simp add: newBoard_merge_into sum_values_def)
  also have "\<dots> = sum_values (map snd (newBoard st)) - tvalue (snd t) - tvalue (snd x) +
       tvalue (snd x) * 2"
    by (simp only: sum_values_remove_two [OF d f(1) f(2) f(10)])
  finally show ?thesis using f(5) by simp
qed

lemma sum_values_move_tile:
  assumes "loop_inv d st (x # rest)"
  shows "sum_values (map snd (newBoard (move_tile d g ach st x))) = sum_values (map snd (newBoard st))"
proof (cases "slide d g (newBoard st) (snd x) (row (snd x)) (col (snd x))")
  case (Stop r' c')
  then show ?thesis
    by (simp add: move_tile_Stop sum_values_relocate)
next
  case (Merge t r' c')
  then show ?thesis
    by (simp add: move_tile_Merge [OF assms] sum_values_merge_into [OF assms])
qed

lemma sum_values_resolve:
  "sum_values (map snd (newBoard (resolve d s))) = sum_values (board s)"
proof (rule resolve_invariant [where P = "\<lambda>st rest. sum_values (map snd (newBoard st)) = sum_values (board s)"])
  show "sum_values (map snd (newBoard (initLoop s))) = sum_values (board s)"
    by (simp add: initLoop_def map_snd_copies sum_values_def comp_def)
next
  fix st x rest
  assume "loop_inv d st (x # rest)" "sum_values (map snd (newBoard st)) = sum_values (board s)"
  then show "sum_values (map snd (newBoard (move_tile d (gridSize s) (achievements s) st x))) = sum_values (board s)"
    by (simp add: sum_values_move_tile)
qed

lemma sum_values_addNewTile:
  "sum_values (addNewTile g r1 r2 now b) =
     sum_values b + (if emptyTiles g b = [] then 0 else if draw_val r2 < 9 / 10 then 2 else 4)"
  by (simp add: addNewTile_unfold sum_values_def Let_def split: prod.splits)

lemma draw0: "draw_val (Draw 0) = 0"
  by (rule Draw_inverse) auto

lemma resolve_two_twos:
  "map snd (newBoard (resolve Left two_twos)) =
     [\<lparr>tvalue = 4, tid = ''tile'', justMerged = True, isNew = False, row = 0, col = 0\<rparr>]"
  "changed (resolve Left two_twos)" "newScore (resolve Left two_twos) = 4"
  "gameState two_twos = Playing" "gridSize two_twos = 4" "score two_twos = 0"
  "board two_twos = [tile_at 2 0 0, tile_at 2 0 1]"
  by code_simp+

lemma emptyTiles_one:
  "emptyTiles 4 [\<lparr>tvalue = 4, tid = ''tile'', justMerged = True, isNew = False, row = 0, col = 0\<rparr>] \<noteq> []"
  by code_simp

lemma move_two_twos:
  "board (fst (move Left (Draw 0) (Draw 0) 0 two_twos)) =
     [\<lparr>tvalue = 4, tid = ''tile'', justMerged = True, isNew = False, row = 0, col = 0\<rparr>,
      \<lparr>tvalue = 2, tid = ''0-1-0'', justMerged = False, isNew = True, row = 0, col = 1\<rparr>]"
  "score (fst (move Left (Draw 0) (Draw 0) 0 two_twos)) = 4"
proof -
  have d: "digits 0 = ''0''" "digits (Suc 0) = ''1''" by code_simp+
  have e: "emptyTiles 4 [\<lparr>tvalue = 4, tid = ''tile'', justMerged = True, isNew = False, row = 0, col = 0\<rparr>]
       ! 0 = (0, 1)" by code_simp
  show "board (fst (move Left (Draw 0) (Draw 0) 0 two_twos)) =
     [\<lparr>tvalue = 4, tid = ''tile'', justMerged = True, isNew = False, row = 0, col = 0\<rparr>,
      \<lparr>tvalue = 2, tid = ''0-1-0'', justMerged = False, isNew = True, row = 0, col = 1\<rparr>]"
    by (simp add: move_def Let_def resolve_two_twos addNewTile_unfold emptyTiles_one draw0 times_double_0 e d)
  show "score (fst (move Left (Draw 0) (Draw 0) 0 two_twos)) = 4"
    by (simp add: move_def Let_def resolve_two_twos)
qed

section \<open>Boards stay valid\<close>

lemma valid_board_objs:
  "valid_board g (map snd nb) \<longleftrightarrow>
     (\<forall>e \<in> set nb. in_grid g (row (snd e)) (col (snd e))) \<and>
     distinct (map (\<lambda>e. (row (snd e), col (snd e))) nb)"
  by (simp add: valid_board_def comp_def)

lemma find_None_free:
  "find (\<lambda>t. row (snd t) = r \<and> col (snd t) = c) nb = None \<longleftrightarrow>
     (r, c) \<notin> (\<lambda>e. (row (snd e), col (snd e))) ` set nb"
  by (force simp: find_None_iff)

lemma distinct_map_update_one:
  assumes "distinct (map pos nb)" and "distinct (map key nb)" and "p \<notin> pos ` set nb"
    and moved: "\<And>y. key y = ref \<Longrightarrow> pos (upd y) = p"
    and kept: "\<And>y. key y \<noteq> ref \<Longrightarrow> upd y = y"
  shows "distinct (map pos (map upd nb))"
  using assms(1-3)
proof (induction nb)
  case Nil
  then show ?case by simp
next
  case (Cons e nb)
  from Cons have IH: "distinct (map pos (map upd nb))"
    by simp
  show ?case
  proof (cases "key e = ref")
    case True
    from Cons.prems have ne: "key e \<notin> key ` set nb" by simp
    have "key y \<noteq> ref" if "y \<in> set nb" for y
    proof
      assume "key y = ref"
      with True have "key e = key y" by simp
      then have "key e \<in> key ` set nb" using that by (rule image_eqI)
      with ne show False ..
    qed
    then have "map upd nb = nb" by (intro map_idI kept)
    moreover from Cons.prems have "p \<notin> pos ` set nb" "distinct (map pos nb)" by simp_all
    ultimately show ?thesis using moved [OF True] by simp
  next
    case False
    have "pos e \<noteq> pos (upd y)" if y: "y \<in> set nb" for y
    proof (cases "key y = ref")
      case True
      from Cons.prems have "pos e \<noteq> p" by auto
      with moved [OF True] show ?thesis by simp
    next
      case False
      from y Cons.prems have "pos e \<noteq> pos y" by auto
      with kept [OF False] show ?thesis by simp
    qed
    then have "pos e \<notin> set (map pos (map upd nb))" by auto
    with IH kept [OF False] show ?thesis by simp
  qed
qed

lemma distinct_positions_update:
  fixes nb :: "obj list"
  assumes "distinct (map (\<lambda>e. (row (snd e), col (snd e))) nb)"
    and "distinct (map fst nb)"
    and "(r', c') \<notin> (\<lambda>e. (row (snd e), col (snd e))) ` set nb"
  shows "distinct (map (\<lambda>e. (row (snd e), col (snd e)))
           (map (\<lambda>t. if fst t = ref then (fst t, (snd t)\<lparr>row := r', col := c'\<rparr>) else t) nb))"
  using assms by (rule distinct_map_update_one [where ref = ref]) simp_all

lemma valid_board_relocate:
  assumes v: "valid_board g (map snd (newBoard st))"
    and d: "distinct (map fst (newBoard st))"
    and f: "(r' = r \<and> c' = c) \<or>
            (in_grid g r' c' \<and> find (\<lambda>t. row (snd t) = r' \<and> col (snd t) = c') (newBoard st) = None)"
  shows "valid_board g (map snd (newBoard (relocate ref r c r' c' st)))"
proof (cases "r' = r \<and> c' = c")
  case True
  with v show ?thesis by (simp add: newBoard_relocate)
next
  case False
  with f have g: "in_grid g r' c'"
    and free: "(r', c') \<notin> (\<lambda>e. (row (snd e), col (snd e))) ` set (newBoard st)"
    by (simp_all add: find_None_free)
  from v have "distinct (map (\<lambda>e. (row (snd e), col (snd e))) (newBoard st))"
    by (simp add: valid_board_objs)
  from distinct_positions_update [OF this d free, of ref]
  have "distinct (map (\<lambda>e. (row (snd e), col (snd e)))
           (map (\<lambda>t. if fst t = ref then (fst t, (snd t)\<lparr>row := r', col := c'\<rparr>) else t) (newBoard st)))" .
  moreover from v g have "\<forall>e \<in> set (map (\<lambda>t. if fst t = ref then (fst t, (snd t)\<lparr>row := r', col := c'\<rparr>) else t) (newBoard st)).
      in_grid g (row (snd e)) (col (snd e))"
    by (auto simp: valid_board_objs)
  ultimately show ?thesis
    using False unfolding valid_board_objs newBoard_relocate by auto
qed

lemma valid_board_merge_into:
  assumes v: "valid_board g (map snd (newBoard st))"
    and inv: "loop_inv d st (x # rest)"
    and sl: "slide d g (newBoard st) (snd x) (row (snd x)) (col (snd x)) = Merge t r' c'"
  shows "valid_board g (map snd (newBoard (merge_into ach x t r' c' st)))"
proof -
  note f = merge_target_facts [OF inv sl]
  let ?pos = "\<lambda>e :: obj. (row (snd e), col (snd e))"
  let ?keep = "filter (\<lambda>e. fst e \<noteq> fst t \<and> fst e \<noteq> fst x) (newBoard st)"
  from v have dp: "distinct (map ?pos (newBoard st))"
    and ing: "\<forall>e \<in> set (newBoard st). in_grid g (row (snd e)) (col (snd e))"
    by (simp_all add: valid_board_objs)
  from dp have "distinct (map ?pos ?keep)" by (rule distinct_map_filter)
  moreover have "(r', c') \<notin> ?pos ` set ?keep"
  proof
    assume "(r', c') \<in> ?pos ` set ?keep"
    then obtain e where e: "e \<in> set (newBoard st)" "fst e \<noteq> fst t" and p: "?pos e = (r', c')"
      by auto
    from p f(3) f(4) have "?pos e = ?pos t" by simp
    with dp e(1) f(1) have "e = t" by (simp add: distinct_map inj_on_def)
    with e(2) show False by simp
  qed
  ultimately show ?thesis
    unfolding valid_board_objs newBoard_merge_into using ing f(7) by auto
qed

lemma valid_board_move_tile:
  assumes "valid_board g (map snd (newBoard st))" and inv: "loop_inv d st (x # rest)"
  shows "valid_board g (map snd (newBoard (move_tile d g ach st x)))"
proof (cases "slide d g (newBoard st) (snd x) (row (snd x)) (col (snd x))")
  case (Stop r' c')
  from inv have "distinct (map fst (newBoard st))" by (simp add: loop_inv_def)
  from valid_board_relocate [OF assms(1) this slide_Stop_free [OF Stop]] Stop show ?thesis
    by (simp add: move_tile_Stop)
next
  case (Merge t r' c')
  then show ?thesis
    by (simp add: move_tile_Merge [OF inv] valid_board_merge_into [OF assms])
qed

lemma valid_board_resolve:
  assumes "valid_board (gridSize s) (board s)"
  shows "valid_board (gridSize s) (map snd (newBoard (resolve d s)))"
proof (rule resolve_invariant [where P = "\<lambda>st rest. valid_board (gridSize s) (map snd (newBoard st))"])
  show "valid_board (gridSize s) (map snd (newBoard (initLoop s)))"
    using assms by (simp add: initLoop_def map_snd_copies valid_board_def comp_def)
next
  fix st x rest
  assume "loop_inv d st (x # rest)" "valid_board (gridSize s) (map snd (newBoard st))"
  then show "valid_board (gridSize s) (map snd (newBoard (move_tile d (gridSize s) (achievements s) st x)))"
    by (simp add: valid_board_move_tile)
qed

lemma valid_board_addNewTile:
  assumes "valid_board g b"
  shows "valid_board g (addNewTile g r1 r2 now b)"
proof (cases "emptyTiles g b = []")
  case True
  with assms show ?thesis by (simp add: addNewTile_unfold)
next
  case False
  let ?k = "nat \<lfloor>times_double (draw_val r1) (real (length (emptyTiles g b)))\<rfloor>"
  from False have "?k < length (emptyTiles g b)" by (intro draw_index_less) simp
  then have "emptyTiles g b ! ?k \<in> set (emptyTiles g b)" by (rule nth_mem)
  then obtain r c where rc: "emptyTiles g b ! ?k = (r, c)" and g: "in_grid g r c"
    and free: "\<not> (\<exists>tile \<in> set b. row tile = r \<and> col tile = c)"
    unfolding set_emptyTiles by (auto simp: in_grid_def)
  from free have "(r, c) \<notin> (\<lambda>tile. (row tile, col tile)) ` set b" by auto
  with assms g show ?thesis
    using False by (simp add: addNewTile_unfold Let_def rc valid_board_def)
qed

lemma gridSize_move [simp]: "gridSize (fst (move d r1 r2 now s)) = gridSize s"
  by (simp add: move_def Let_def)

lemma valid_board_move:
  assumes "valid_board (gridSize s) (board s)"
  shows "valid_board (gridSize s) (board (fst (move d r1 r2 now s)))"
  using assms valid_board_resolve [OF assms, of d]
  by (simp add: move_def Let_def valid_board_addNewTile)

lemma valid_board_exec:
  assumes "valid_board (gridSize s) (board s)"
  shows "valid_board (gridSize (fst (exec c s))) (board (fst (exec c s)))"
proof (cases c)
  case (Move d r1 r2 now)
  with valid_board_move [OF assms] show ?thesis by simp
next
  case (InitializeGame r1 r2 now r3 r4 now')
  have "valid_board (gridSize s) []" by (simp add: valid_board_def)
  then show ?thesis
    by (simp add: InitializeGame initializeGame_def valid_board_addNewTile)
next
  case CheckAchievements
  with assms show ?thesis by (simp add: fst_checkAchievements)
qed (use assms in \<open>simp_all add: continueAfterVictory_def valid_board_def\<close>)

text \<open>
  Claim C9. In every session reached from \<^verbatim>\<open>initializeGame\<close> by moves (each resolved and
  followed by its spawn) and the other commands, no two tiles of the board are on one cell and
  every tile has its row and its column from 0 up to, not including, the grid size.
\<close>

theorem reachable_board_valid:
  assumes "reachable s"
  shows "valid_board (gridSize s) (board s)"
  using assms
proof (induction rule: reachable.induct)
  case (start r1 r2 now r3 r4 now' s)
  have "valid_board (gridSize s) []" by (simp add: valid_board_def)
  then show ?case
    by (simp add: initializeGame_def valid_board_addNewTile)
next
  case (step s c)
  from step.IH show ?case by (rule valid_board_exec)
qed

theorem reachable_board_valid_witness:
  "reachable first_move \<and> gridSize first_move = 4 \<and> valid_board 4 (board first_move)"
proof -
  have r: "reachable first_move"
    unfolding first_move_def by (intro reachable.intros)
  have g: "gridSize first_move = 4"
    by (simp add: first_move_def initializeGame_def new_session_def)
  from reachable_board_valid [OF r] g show ?thesis
    using r by simp
qed

section \<open>Where the tiles of a resolved board come from: proofs\<close>

lemma lane_update:
  assumes "drow d = 0 \<longrightarrow> r' = row t" and "dcol d = 0 \<longrightarrow> c' = col t"
  shows "lane d (t\<lparr>row := r', col := c'\<rparr>) = lane d t"
  using assms by (cases d) (simp_all add: lane_def)

lemma lane_at:
  assumes "drow d = 0 \<longrightarrow> row t' = row t" and "dcol d = 0 \<longrightarrow> col t' = col t"
  shows "lane d t' = lane d t"
  using assms by (cases d) (simp_all add: lane_def)

lemma lane_copy [simp]: "lane d (t\<lparr>justMerged := False, isNew := False\<rparr>) = lane d t"
  by (cases d) (simp_all add: lane_def)

lemma ball_set_map: "(\<forall>e \<in> set (map f xs). P e) \<longleftrightarrow> (\<forall>e \<in> set xs. P (f e))"
  by auto

lemma copies_member:
  assumes "x \<in> set (copies b)"
  shows "fst x < length b" "snd x = (b ! fst x)\<lparr>justMerged := False, isNew := False\<rparr>"
  using assms by (auto simp: set_copies)

lemma from_board_copy:
  assumes "x \<in> set (copies b)"
  shows "from_board d b x"
  using copies_member [OF assms] by (simp add: from_board_def)

lemma from_board_relocate:
  assumes inv: "loop_inv d st (x # rest)"
    and xc: "x \<in> set (copies b)"
    and fb: "\<forall>e \<in> set (newBoard st). from_board d b e"
    and sl: "slide d g (newBoard st) (snd x) (row (snd x)) (col (snd x)) = Stop r' c'"
  shows "\<forall>e \<in> set (newBoard (relocate (fst x) (row (snd x)) (col (snd x)) r' c' st)). from_board d b e"
proof (cases "r' \<noteq> row (snd x) \<or> c' \<noteq> col (snd x)")
  case False
  with fb show ?thesis by (simp add: newBoard_relocate)
next
  case True
  from inv have d1: "distinct (map fst (newBoard st))" and x: "x \<in> set (newBoard st)"
    by (simp_all add: loop_inv_def)
  note k = slide_Stop_key [OF sl]
  have nb': "newBoard (relocate (fst x) (row (snd x)) (col (snd x)) r' c' st) =
      map (\<lambda>e. if fst e = fst x then (fst e, (snd e)\<lparr>row := r', col := c'\<rparr>) else e) (newBoard st)"
    using True by (simp add: newBoard_relocate)
  have "from_board d b (if fst e = fst x then (fst e, (snd e)\<lparr>row := r', col := c'\<rparr>) else e)"
    if e: "e \<in> set (newBoard st)" for e
  proof (cases "fst e = fst x")
    case False
    with fb e show ?thesis by simp
  next
    case same: True
    with fst_inj_on_board [OF d1 e x] have "e = x" by simp
    moreover have "lane d ((snd x)\<lparr>row := r', col := c'\<rparr>) = lane d (snd x)"
      using k by (intro lane_update) simp_all
    moreover from fb x have "from_board d b x" by simp
    ultimately show ?thesis
      using copies_member [OF xc] by (simp add: from_board_def)
  qed
  then show ?thesis
    unfolding nb' ball_set_map by (intro ballI)
qed

lemma from_board_merge_into:
  assumes inv: "loop_inv d st (x # rest)"
    and xc: "x \<in> set (copies b)"
    and fb: "\<forall>e \<in> set (newBoard st). from_board d b e"
    and sl: "slide d g (newBoard st) (snd x) (row (snd x)) (col (snd x)) = Merge t r' c'"
  shows "\<forall>e \<in> set (newBoard (merge_into ach x t r' c' st)). from_board d b e"
proof -
  note f = merge_target_facts [OF inv sl]
  note m = slide_Merge [OF sl]
  note c = copies_member [OF xc]
  from fb f(1) f(6) have t: "fst t < length b" "tvalue (snd t) = tvalue (b ! fst t)"
    "lane d (snd t) = lane d (b ! fst t)"
    by (simp_all add: from_board_def)
  have lt: "lane d (snd t) = lane d (snd x)"
    using m f(3) f(4) by (intro lane_at) simp_all
  have lx: "lane d (snd x) = lane d (b ! fst x)"
    using c by simp
  let ?m = "(fresh st, \<lparr>tvalue = tvalue (snd x) * 2, tid = tid (snd x), justMerged = True,
                    isNew = False, row = r', col = c'\<rparr>)"
  have lm: "lane d (snd ?m) = lane d (snd x)"
    using m by (intro lane_at) simp_all
  have "from_board d b ?m"
    unfolding from_board_def
    apply (simp del: One_nat_def)
    apply (rule exI [of _ "fst x"])
    apply (rule conjI)
     apply (rule c(1))
    apply (rule exI [of _ "fst t"])
    using t f(5) f(10) lt lx lm c(2) apply simp
    done
  with fb show ?thesis
    by (simp add: newBoard_merge_into)
qed

lemma loop_after_invariant:
  assumes init: "P (initLoop s) (sort_key (sortKey d) (copies (board s)))"
    and step: "\<And>st x rest. loop_inv d st (x # rest) \<Longrightarrow> P st (x # rest) \<Longrightarrow>
                 P (move_tile d (gridSize s) (achievements s) st x) rest"
  shows "loop_inv d (loop_after d s k) (drop k (sort_key (sortKey d) (copies (board s)))) \<and>
         P (loop_after d s k) (drop k (sort_key (sortKey d) (copies (board s))))"
  unfolding loop_after_def
proof (rule foldl_take_invariant [where I = "\<lambda>st rest. loop_inv d st rest \<and> P st rest"])
  show "loop_inv d (initLoop s) (sort_key (sortKey d) (copies (board s))) \<and>
        P (initLoop s) (sort_key (sortKey d) (copies (board s)))"
    using init loop_inv_init by simp
next
  fix st x rest
  assume "loop_inv d st (x # rest) \<and> P st (x # rest)"
  then show "loop_inv d (move_tile d (gridSize s) (achievements s) st x) rest \<and>
             P (move_tile d (gridSize s) (achievements s) st x) rest"
    using step loop_inv_move_tile by simp
qed

lemma resolve_loop_after:
  "resolve d s =
     foldl (move_tile d (gridSize s) (achievements s)) (loop_after d s k)
       (drop k (sort_key (sortKey d) (copies (board s))))"
  unfolding resolve_def loop_after_def
  by (simp add: foldl_append [symmetric])

lemma loop_after_all:
  assumes "length (board s) \<le> k"
  shows "loop_after d s k = resolve d s"
  using assms by (simp add: loop_after_def resolve_def copies_def)

lemma from_board_move_tile:
  assumes inv: "loop_inv d st (x # rest)"
    and xc: "x \<in> set (copies b)"
    and fb: "\<forall>e \<in> set (newBoard st). from_board d b e"
  shows "\<forall>e \<in> set (newBoard (move_tile d g ach st x)). from_board d b e"
proof (cases "slide d g (newBoard st) (snd x) (row (snd x)) (col (snd x))")
  case (Stop r' c')
  from from_board_relocate [OF inv xc fb Stop] Stop show ?thesis
    by (simp add: move_tile_Stop)
next
  case (Merge t r' c')
  from from_board_merge_into [OF inv xc fb Merge] Merge show ?thesis
    by (simp add: move_tile_Merge [OF inv])
qed

lemma from_board_loop_after:
  "set (drop k (sort_key (sortKey d) (copies (board s)))) \<subseteq> set (copies (board s)) \<and>
   (\<forall>e \<in> set (newBoard (loop_after d s k)). from_board d (board s) e)"
proof -
  have "loop_inv d (loop_after d s k) (drop k (sort_key (sortKey d) (copies (board s)))) \<and>
        (set (drop k (sort_key (sortKey d) (copies (board s)))) \<subseteq> set (copies (board s)) \<and>
         (\<forall>e \<in> set (newBoard (loop_after d s k)). from_board d (board s) e))"
  proof (rule loop_after_invariant [where P = "\<lambda>st rest. set rest \<subseteq> set (copies (board s)) \<and>
        (\<forall>e \<in> set (newBoard st). from_board d (board s) e)"])
    show "set (sort_key (sortKey d) (copies (board s))) \<subseteq> set (copies (board s)) \<and>
          (\<forall>e \<in> set (newBoard (initLoop s)). from_board d (board s) e)"
      by (simp add: initLoop_def from_board_copy)
  next
    fix st x rest
    assume inv: "loop_inv d st (x # rest)"
      and "set (x # rest) \<subseteq> set (copies (board s)) \<and> (\<forall>e \<in> set (newBoard st). from_board d (board s) e)"
    then have xc: "x \<in> set (copies (board s))" and r: "set rest \<subseteq> set (copies (board s))"
      and fb: "\<forall>e \<in> set (newBoard st). from_board d (board s) e"
      by simp_all
    from from_board_move_tile [OF inv xc fb] r
    show "set rest \<subseteq> set (copies (board s)) \<and>
          (\<forall>e \<in> set (newBoard (move_tile d (gridSize s) (achievements s) st x)). from_board d (board s) e)"
      by simp
  qed
  then show ?thesis ..
qed

lemma from_board_resolve:
  "\<forall>e \<in> set (newBoard (resolve d s)). from_board d (board s) e"
  using from_board_loop_after [of "length (board s)" d s]
  by (simp add: loop_after_all)

text \<open>
  Claim C10. A tile of the resolved board that is not flagged \<^verbatim>\<open>justMerged\<close> is the copy of
  the tile of the board with its reference, with its id and value; after a left or right
  move it is in the row it started in, after an up or down move in the column it started in.
  A flagged tile has the id of a tile of the board and twice its value, a second tile of the
  board had that value, and both started in the row (left, right) or column (up, down) the
  flagged tile is in.
\<close>

theorem move_keeps_lane:
  assumes "e \<in> set (newBoard (resolve d s))"
  shows "(\<not> justMerged (snd e) \<longrightarrow>
            fst e < length (board s) \<and>
            tid (snd e) = tid (board s ! fst e) \<and> tvalue (snd e) = tvalue (board s ! fst e) \<and>
            (d = Left \<or> d = Right \<longrightarrow> row (snd e) = row (board s ! fst e)) \<and>
            (d = Up \<or> d = Down \<longrightarrow> col (snd e) = col (board s ! fst e))) \<and>
         (justMerged (snd e) \<longrightarrow>
            (\<exists>i < length (board s). \<exists>j < length (board s).
               i \<noteq> j \<and> tid (snd e) = tid (board s ! i) \<and>
               tvalue (snd e) = tvalue (board s ! i) * 2 \<and> tvalue (board s ! j) = tvalue (board s ! i) \<and>
               (d = Left \<or> d = Right \<longrightarrow>
                  row (snd e) = row (board s ! i) \<and> row (board s ! j) = row (board s ! i)) \<and>
               (d = Up \<or> d = Down \<longrightarrow>
                  col (snd e) = col (board s ! i) \<and> col (board s ! j) = col (board s ! i))))"
proof -
  from from_board_resolve assms have fb: "from_board d (board s) e" by blast
  show ?thesis
  proof (cases "justMerged (snd e)")
    case False
    with fb show ?thesis
      by (cases d) (simp_all add: from_board_def lane_def)
  next
    case True
    with fb obtain i j where ij: "i < length (board s)" "j < length (board s)"
      and q: "i \<noteq> j" "tid (snd e) = tid (board s ! i)" "tvalue (snd e) = tvalue (board s ! i) * 2"
      "tvalue (board s ! j) = tvalue (board s ! i)"
      "lane d (snd e) = lane d (board s ! i)" "lane d (board s ! j) = lane d (board s ! i)"
      unfolding from_board_def by auto
    from q have "i \<noteq> j \<and> tid (snd e) = tid (board s ! i) \<and>
               tvalue (snd e) = tvalue (board s ! i) * 2 \<and> tvalue (board s ! j) = tvalue (board s ! i) \<and>
               (d = Left \<or> d = Right \<longrightarrow>
                  row (snd e) = row (board s ! i) \<and> row (board s ! j) = row (board s ! i)) \<and>
               (d = Up \<or> d = Down \<longrightarrow>
                  col (snd e) = col (board s ! i) \<and> col (board s ! j) = col (board s ! i))"
      by (cases d) (simp_all add: lane_def)
    with ij have "\<exists>i < length (board s). \<exists>j < length (board s).
               i \<noteq> j \<and> tid (snd e) = tid (board s ! i) \<and>
               tvalue (snd e) = tvalue (board s ! i) * 2 \<and> tvalue (board s ! j) = tvalue (board s ! i) \<and>
               (d = Left \<or> d = Right \<longrightarrow>
                  row (snd e) = row (board s ! i) \<and> row (board s ! j) = row (board s ! i)) \<and>
               (d = Up \<or> d = Down \<longrightarrow>
                  col (snd e) = col (board s ! i) \<and> col (board s ! j) = col (board s ! i))"
      by blast
    with True show ?thesis by simp
  qed
qed

theorem move_keeps_lane_witness:
  "moved_4 \<in> set (newBoard (resolve Left row_224)) \<and>
   row (snd moved_4) = row (board row_224 ! fst moved_4) \<and>
   merged_4 \<in> set (newBoard (resolve Left row_224)) \<and> row (snd merged_4) = 0 \<and>
   map row (board row_224) = [0, 0, 0]"
proof -
  have a: "moved_4 \<in> set (newBoard (resolve Left row_224))" by code_simp
  have b: "\<not> justMerged (snd moved_4)" by code_simp
  from move_keeps_lane [OF a, THEN conjunct1] b
  have c: "row (snd moved_4) = row (board row_224 ! fst moved_4)" by simp
  have d: "merged_4 \<in> set (newBoard (resolve Left row_224))" by code_simp
  have e: "row (snd merged_4) = 0" by code_simp
  have f: "map row (board row_224) = [0, 0, 0]" by code_simp
  from a c d e f show ?thesis by (intro conjI)
qed

section \<open>No tile merges twice in a move\<close>

lemma flagged_stays_move_tile:
  assumes inv: "loop_inv d st (x # rest)"
    and xu: "\<not> justMerged (snd x)"
    and e: "e \<in> set (newBoard st)" and ef: "justMerged (snd e)"
  shows "e \<in> set (newBoard (move_tile d g ach st x))"
proof -
  from inv have d1: "distinct (map fst (newBoard st))" and x: "x \<in> set (newBoard st)"
    by (simp_all add: loop_inv_def)
  from xu ef have "e \<noteq> x" by auto
  with fst_inj_on_board [OF d1 e x] have ex: "fst e \<noteq> fst x" by blast
  show ?thesis
  proof (cases "slide d g (newBoard st) (snd x) (row (snd x)) (col (snd x))")
    case (Stop r' c')
    let ?upd = "\<lambda>t :: obj. if fst t = fst x then (fst t, (snd t)\<lparr>row := r', col := c'\<rparr>) else t"
    from ex have "?upd e = e" by simp
    moreover from e have "?upd e \<in> ?upd ` set (newBoard st)" by (rule imageI)
    ultimately have "e \<in> set (map ?upd (newBoard st))" by simp
    with e show ?thesis
      by (simp add: move_tile_Stop [OF Stop] newBoard_relocate)
  next
    case (Merge t r' c')
    note f = merge_target_facts [OF inv Merge]
    from f(6) ef have "e \<noteq> t" by auto
    with fst_inj_on_board [OF d1 e f(1)] have "fst e \<noteq> fst t" by blast
    with ex e show ?thesis
      by (simp add: move_tile_Merge [OF inv Merge] newBoard_merge_into)
  qed
qed

lemma flagged_stays_foldl:
  assumes "loop_inv d st rest" and "\<forall>x \<in> set rest. \<not> justMerged (snd x)"
    and "e \<in> set (newBoard st)" and "justMerged (snd e)"
  shows "e \<in> set (newBoard (foldl (move_tile d g ach) st rest))"
  using assms
proof (induction rest arbitrary: st)
  case Nil
  then show ?case by simp
next
  case (Cons x rest)
  from Cons.prems have xu: "\<not> justMerged (snd x)" by simp
  have "e \<in> set (newBoard (move_tile d g ach st x))"
    by (rule flagged_stays_move_tile [OF Cons.prems(1) xu Cons.prems(3) Cons.prems(4)])
  moreover have "loop_inv d (move_tile d g ach st x) rest"
    by (rule loop_inv_move_tile [OF Cons.prems(1)])
  moreover from Cons.prems have "\<forall>x \<in> set rest. \<not> justMerged (snd x)" by simp
  ultimately show ?case
    using Cons.IH Cons.prems(4) by simp
qed

lemma copies_not_flagged: "x \<in> set (copies b) \<Longrightarrow> \<not> justMerged (snd x)"
  by (auto simp: set_copies)

lemma flagged_stays:
  assumes "e \<in> set (newBoard (loop_after d s k))" and "justMerged (snd e)"
  shows "e \<in> set (newBoard (resolve d s))"
proof -
  let ?rest = "drop k (sort_key (sortKey d) (copies (board s)))"
  have inv: "loop_inv d (loop_after d s k) ?rest"
    using loop_after_invariant [where P = "\<lambda>_ _. True" and d = d and s = s and k = k] by simp
  have "set ?rest \<subseteq> set (copies (board s))"
    using from_board_loop_after [of k d s] by simp
  then have "\<forall>x \<in> set ?rest. \<not> justMerged (snd x)"
    using copies_not_flagged by blast
  from flagged_stays_foldl [OF inv this assms] show ?thesis
    by (simp add: resolve_loop_after [of d s k])
qed

lemma length_as_sum: "int (length xs) = sum_list (map (\<lambda>_. 1) xs)"
  by (induction xs) simp_all

lemma merged_count_as_sum:
  "int (merged_count nb) = sum_list (map (\<lambda>e. if justMerged (snd e) then 1 else 0) nb)"
  by (induction nb) (simp_all add: merged_count_def)

lemma merged_count_relocate:
  "merged_count (newBoard (relocate ref r c r' c' st)) = merged_count (newBoard st) \<and>
   length (newBoard (relocate ref r c r' c' st)) = length (newBoard st)"
proof -
  have "merged_count (map (\<lambda>t. if fst t = ref then (fst t, (snd t)\<lparr>row := r', col := c'\<rparr>) else t) nb) =
        merged_count nb" for nb :: "obj list"
    by (induction nb) (simp_all add: merged_count_def)
  then show ?thesis
    by (simp add: newBoard_relocate)
qed

lemma merged_count_merge_into:
  assumes inv: "loop_inv d st (x # rest)"
    and xu: "\<not> justMerged (snd x)"
    and sl: "slide d g (newBoard st) (snd x) (row (snd x)) (col (snd x)) = Merge t r' c'"
  shows "int (merged_count (newBoard (merge_into ach x t r' c' st))) = int (merged_count (newBoard st)) + 1"
    and "int (length (newBoard (merge_into ach x t r' c' st))) = int (length (newBoard st)) - 1"
proof -
  note f = merge_target_facts [OF inv sl]
  from inv have d: "distinct (map fst (newBoard st))" by (simp add: loop_inv_def)
  note two = sum_list_remove_two [OF d f(1) f(2) f(10)]
  let ?keep = "filter (\<lambda>e. fst e \<noteq> fst t \<and> fst e \<noteq> fst x) (newBoard st)"
  have "int (merged_count ?keep) = int (merged_count (newBoard st))"
    unfolding merged_count_as_sum two using f(6) xu by simp
  then show "int (merged_count (newBoard (merge_into ach x t r' c' st))) = int (merged_count (newBoard st)) + 1"
    by (simp add: newBoard_merge_into merged_count_def)
  have "int (length ?keep) = int (length (newBoard st)) - 2"
    unfolding length_as_sum two by simp
  then show "int (length (newBoard (merge_into ach x t r' c' st))) = int (length (newBoard st)) - 1"
    by (simp add: newBoard_merge_into)
qed

lemma merged_count_move_tile:
  assumes inv: "loop_inv d st (x # rest)" and xu: "\<not> justMerged (snd x)"
  shows "int (length (newBoard (move_tile d g ach st x))) + int (merged_count (newBoard (move_tile d g ach st x))) =
         int (length (newBoard st)) + int (merged_count (newBoard st))"
proof (cases "slide d g (newBoard st) (snd x) (row (snd x)) (col (snd x))")
  case (Stop r' c')
  then show ?thesis
    by (simp add: move_tile_Stop merged_count_relocate)
next
  case (Merge t r' c')
  from merged_count_merge_into [OF inv xu Merge] Merge show ?thesis
    by (simp add: move_tile_Merge [OF inv])
qed

lemma merged_count_resolve:
  "length (newBoard (resolve d s)) + merged_count (newBoard (resolve d s)) = length (board s)"
proof -
  have "set [] \<subseteq> set (copies (board s)) \<and>
     int (length (newBoard (resolve d s))) + int (merged_count (newBoard (resolve d s))) =
     int (length (board s))"
  proof (rule resolve_invariant [where P = "\<lambda>st rest. set rest \<subseteq> set (copies (board s)) \<and>
          int (length (newBoard st)) + int (merged_count (newBoard st)) = int (length (board s))"])
    have "merged_count (copies (board s)) = 0"
      using copies_not_flagged [of _ "board s"] by (simp add: merged_count_def)
    then show "set (sort_key (sortKey d) (copies (board s))) \<subseteq> set (copies (board s)) \<and>
          int (length (newBoard (initLoop s))) + int (merged_count (newBoard (initLoop s))) =
          int (length (board s))"
      by (simp add: initLoop_def copies_def)
  next
    fix st x rest
    assume inv: "loop_inv d st (x # rest)"
      and "set (x # rest) \<subseteq> set (copies (board s)) \<and>
           int (length (newBoard st)) + int (merged_count (newBoard st)) = int (length (board s))"
    then have xc: "x \<in> set (copies (board s))" and r: "set rest \<subseteq> set (copies (board s))"
      and c: "int (length (newBoard st)) + int (merged_count (newBoard st)) = int (length (board s))"
      by simp_all
    from xc have xu: "\<not> justMerged (snd x)" by (rule copies_not_flagged)
    from merged_count_move_tile [OF inv xu] r c
    show "set rest \<subseteq> set (copies (board s)) \<and>
          int (length (newBoard (move_tile d (gridSize s) (achievements s) st x))) +
            int (merged_count (newBoard (move_tile d (gridSize s) (achievements s) st x))) =
          int (length (board s))"
      by simp
  qed
  then show ?thesis by linarith
qed

text \<open>
  Claim C4. A tile flagged \<^verbatim>\<open>justMerged\<close> after any number of iterations of the loop is still
  on the board, as it is, when the loop is done: it is neither absorbed by a second merge nor
  moved. The tiles that have gone from the board are as many as the tiles flagged at the end,
  so every flagged tile stands for two tiles of the board and no more. A flagged tile has
  twice the value of two different tiles of the board, and a tile not flagged has the value
  of the tile of the board it is the copy of.
\<close>

theorem merge_once:
  "(\<forall>e \<in> set (newBoard (loop_after d s k)).
      justMerged (snd e) \<longrightarrow> e \<in> set (newBoard (resolve d s))) \<and>
   length (newBoard (resolve d s)) + merged_count (newBoard (resolve d s)) = length (board s) \<and>
   (\<forall>e \<in> set (newBoard (resolve d s)).
      if justMerged (snd e)
      then (\<exists>i < length (board s). \<exists>j < length (board s).
              i \<noteq> j \<and> tvalue (snd e) = tvalue (board s ! i) * 2 \<and>
              tvalue (board s ! j) = tvalue (board s ! i))
      else fst e < length (board s) \<and> tvalue (snd e) = tvalue (board s ! fst e))"
proof (intro conjI ballI impI)
  fix e assume "e \<in> set (newBoard (loop_after d s k))" "justMerged (snd e)"
  then show "e \<in> set (newBoard (resolve d s))" by (rule flagged_stays)
next
  show "length (newBoard (resolve d s)) + merged_count (newBoard (resolve d s)) = length (board s)"
    by (rule merged_count_resolve)
next
  fix e assume "e \<in> set (newBoard (resolve d s))"
  with from_board_resolve have "from_board d (board s) e" by blast
  then show "if justMerged (snd e)
      then (\<exists>i < length (board s). \<exists>j < length (board s).
              i \<noteq> j \<and> tvalue (snd e) = tvalue (board s ! i) * 2 \<and>
              tvalue (board s ! j) = tvalue (board s ! i))
      else fst e < length (board s) \<and> tvalue (snd e) = tvalue (board s ! fst e)"
    unfolding from_board_def by (auto split: if_splits)
qed

theorem merge_once_witness:
  "merged_4 \<in> set (newBoard (loop_after Left row_222 2)) \<and> justMerged (snd merged_4) \<and>
   merged_4 \<in> set (newBoard (resolve Left row_222)) \<and>
   map (\<lambda>e. (tvalue (snd e), col (snd e))) (newBoard (resolve Left row_222)) = [(2, 1), (4, 0)] \<and>
   map (\<lambda>e. (tvalue (snd e), col (snd e))) (newBoard (resolve Left row_224)) = [(4, 1), (4, 0)] \<and>
   newScore (resolve Left row_224) = score row_224 + 4"
proof -
  have a: "merged_4 \<in> set (newBoard (loop_after Left row_222 2))" by code_simp
  have b: "justMerged (snd merged_4)" by code_simp
  from merge_once [of Left row_222 2] a b
  have c: "merged_4 \<in> set (newBoard (resolve Left row_222))" by blast
  have d: "map (\<lambda>e. (tvalue (snd e), col (snd e))) (newBoard (resolve Left row_222)) = [(2, 1), (4, 0)]"
    by code_simp
  have e: "map (\<lambda>e. (tvalue (snd e), col (snd e))) (newBoard (resolve Left row_224)) = [(4, 1), (4, 0)]"
    by code_simp
  have f: "newScore (resolve Left row_224) = score row_224 + 4" by code_simp
  from a b c d e f show ?thesis by (intro conjI)
qed

section \<open>A move with no legal slide\<close>

lemma foldl_invariant:
  assumes "P st" and "\<And>st x. P st \<Longrightarrow> x \<in> set xs \<Longrightarrow> P (f st x)"
  shows "P (foldl f st xs)"
  using assms
proof (induction xs arbitrary: st)
  case Nil
  then show ?case by simp
next
  case (Cons x xs)
  have "P (f st x)" by (rule Cons.prems(2) [OF Cons.prems(1)]) simp
  then show ?case
    using Cons.prems(2) by (simp add: Cons.IH)
qed

lemma relocate_same [simp]: "relocate ref r c r c st = st"
  by (simp add: relocate_def)

lemma copy_of_tile:
  assumes "x \<in> set (copies b)"
  obtains t where "t \<in> set b" "snd x = t\<lparr>justMerged := False, isNew := False\<rparr>"
  using copies_member [OF assms] by (metis nth_mem)

lemma occupied_copies:
  "occupied b r c \<longleftrightarrow> (\<exists>e \<in> set (copies b). row (snd e) = r \<and> col (snd e) = c)"
proof
  assume "occupied b r c"
  then obtain t where "t \<in> set b" "row t = r" "col t = c" by (auto simp: occupied_def)
  then obtain i where "i < length b" "b ! i = t" by (auto simp: in_set_conv_nth)
  then have "(i, t\<lparr>justMerged := False, isNew := False\<rparr>) \<in> set (copies b)"
    by (auto simp: set_copies)
  with \<open>row t = r\<close> \<open>col t = c\<close> show "\<exists>e \<in> set (copies b). row (snd e) = r \<and> col (snd e) = c"
    by force
next
  assume "\<exists>e \<in> set (copies b). row (snd e) = r \<and> col (snd e) = c"
  then obtain e where e: "e \<in> set (copies b)" "row (snd e) = r" "col (snd e) = c" by blast
  from e(1) obtain t where "t \<in> set b" "snd e = t\<lparr>justMerged := False, isNew := False\<rparr>"
    by (rule copy_of_tile)
  with e(2,3) show "occupied b r c"
    by (auto simp: occupied_def)
qed

lemma find_copies_Some:
  assumes "occupied b r c"
  obtains e where "find (\<lambda>t. row (snd t) = r \<and> col (snd t) = c) (copies b) = Some e"
    "e \<in> set (copies b)" "row (snd e) = r" "col (snd e) = c"
proof -
  from assms have "\<exists>e \<in> set (copies b). row (snd e) = r \<and> col (snd e) = c"
    by (simp add: occupied_copies)
  then obtain e0 where e0: "e0 \<in> set (copies b)" "row (snd e0) = r" "col (snd e0) = c"
    by blast
  have "find (\<lambda>t. row (snd t) = r \<and> col (snd t) = c) (copies b) \<noteq> None"
  proof
    assume "find (\<lambda>t. row (snd t) = r \<and> col (snd t) = c) (copies b) = None"
    then have "\<not> (\<exists>x. x \<in> set (copies b) \<and> row (snd x) = r \<and> col (snd x) = c)"
      by (simp add: find_None_iff)
    with e0 show False by blast
  qed
  then obtain e where e: "find (\<lambda>t. row (snd t) = r \<and> col (snd t) = c) (copies b) = Some e"
    by auto
  from find_SomeD [OF e] e that show thesis by simp
qed

lemma blocked_slide:
  assumes x: "x \<in> set (copies b)"
    and bl: "\<forall>t \<in> set b. blocked d g b t"
  shows "slide d g (copies b) (snd x) (row (snd x)) (col (snd x)) = Stop (row (snd x)) (col (snd x))"
proof -
  from x obtain t where t: "t \<in> set b" "snd x = t\<lparr>justMerged := False, isNew := False\<rparr>"
    by (rule copy_of_tile)
  with bl have b: "blocked d g b t" by simp
  from t have pos: "row (snd x) = row t" "col (snd x) = col t" "tvalue (snd x) = tvalue t" by simp_all
  show ?thesis
  proof (cases "in_grid g (row t + drow d) (col t + dcol d)")
    case False
    then show ?thesis by (subst slide_unfold) (simp add: pos)
  next
    case True
    with b have occ: "occupied b (row t + drow d) (col t + dcol d)"
      and diff: "\<forall>u \<in> set b. row u = row t + drow d \<and> col u = col t + dcol d \<longrightarrow> tvalue u \<noteq> tvalue t"
      by (simp_all add: blocked_def)
    from occ obtain e where e: "find (\<lambda>t'. row (snd t') = row t + drow d \<and> col (snd t') = col t + dcol d) (copies b) = Some e"
      "e \<in> set (copies b)" "row (snd e) = row t + drow d" "col (snd e) = col t + dcol d"
      by (rule find_copies_Some)
    from e(2) obtain u where u: "u \<in> set b" "snd e = u\<lparr>justMerged := False, isNew := False\<rparr>"
      by (rule copy_of_tile)
    with e(3,4) diff have "tvalue (snd e) \<noteq> tvalue t" by simp
    with True e(1) show ?thesis by (subst slide_unfold) (simp add: pos)
  qed
qed

lemma blocked_resolve:
  assumes "\<forall>t \<in> set (board s). blocked d (gridSize s) (board s) t"
  shows "resolve d s = initLoop s"
  unfolding resolve_def
proof (rule foldl_invariant [where P = "\<lambda>st. st = initLoop s"])
  show "initLoop s = initLoop s" ..
next
  fix st x
  assume st: "st = initLoop s" and "x \<in> set (sort_key (sortKey d) (copies (board s)))"
  then have x: "x \<in> set (copies (board s))" by simp
  have nb: "newBoard (initLoop s) = copies (board s)" by (simp add: initLoop_def)
  from blocked_slide [OF x assms]
  show "move_tile d (gridSize s) (achievements s) st x = initLoop s"
    by (simp add: move_tile_def st nb)
qed

text \<open>
  Claim C5. On a board with no legal slide in the direction of the move (every tile has the
  wall, or a tile of another value, next to it in that direction) the resolver reports no
  change, leaves the score as it is and the tiles where they are, and \<^verbatim>\<open>move\<close> leaves the
  board of the session untouched, so it spawns no tile, and leaves the move count, the score
  and the achievements as they are and shows no toast.
\<close>

theorem blocked_move_changes_nothing:
  assumes "\<forall>t \<in> set (board s). blocked d (gridSize s) (board s) t"
  shows "\<not> changed (resolve d s) \<and> newScore (resolve d s) = score s \<and>
         map snd (newBoard (resolve d s)) =
           map (\<lambda>tile. tile\<lparr>justMerged := False, isNew := False\<rparr>) (board s) \<and>
         board (fst (move d r1 r2 now s)) = board s \<and>
         score (fst (move d r1 r2 now s)) = score s \<and>
         moveCount (fst (move d r1 r2 now s)) = moveCount s \<and>
         achievements (fst (move d r1 r2 now s)) = achievements s \<and>
         snd (move d r1 r2 now s) = []"
  unfolding blocked_resolve [OF assms]
  by (simp add: move_def blocked_resolve [OF assms] initLoop_def map_snd_copies Let_def)

theorem blocked_move_changes_nothing_witness:
  "board row_242 = [tile_at 2 0 0, tile_at 4 0 1, tile_at 2 0 2] \<and>
   blocked Left 4 (board row_242) (tile_at 2 0 0) \<and>
   blocked Left 4 (board row_242) (tile_at 4 0 1) \<and>
   blocked Left 4 (board row_242) (tile_at 2 0 2) \<and>
   \<not> changed (resolve Left row_242) \<and>
   board (fst (move Left (Draw 0) (Draw 0) 0 row_242)) = board row_242 \<and>
   moveCount (fst (move Left (Draw 0) (Draw 0) 0 row_242)) = moveCount row_242"
proof -
  have b: "board row_242 = [tile_at 2 0 0, tile_at 4 0 1, tile_at 2 0 2]" "gridSize row_242 = 4"
    by (simp_all add: row_242_def)
  have 1: "blocked Left 4 (board row_242) (tile_at 2 0 0)"
    and 2: "blocked Left 4 (board row_242) (tile_at 4 0 1)"
    and 3: "blocked Left 4 (board row_242) (tile_at 2 0 2)"
    unfolding b by (simp_all add: blocked_def in_grid_def occupied_def tile_at_def)
  then have all: "\<forall>t \<in> set (board row_242). blocked Left (gridSize row_242) (board row_242) t"
    by (simp add: b)
  from blocked_move_changes_nothing [OF all, of "Draw 0" "Draw 0" 0] b(1) 1 2 3
  show ?thesis by simp
qed

section \<open>The same move twice\<close>

lemma settled_objs_final:
  assumes "settled_objs d g nb []"
  shows "settled d g (map snd nb)"
  using assms unfolding settled_objs_def settled_def occupied_def
  by (simp add: ball_set_map)

lemma settled_objs_relocate:
  assumes inv: "loop_inv d st (x # rest)"
    and S: "settled_objs d g (newBoard st) (x # rest)"
    and sl: "slide d g (newBoard st) (snd x) (row (snd x)) (col (snd x)) = Stop r' c'"
  shows "settled_objs d g (newBoard (relocate (fst x) (row (snd x)) (col (snd x)) r' c' st)) rest"
proof -
  from inv have d1: "distinct (map fst (newBoard st))" and x: "x \<in> set (newBoard st)"
    and so: "\<forall>y \<in> set rest. sortKey d x \<le> sortKey d y"
    by (simp_all add: loop_inv_def)
  define upd where "upd = (\<lambda>t :: obj. if fst t = fst x then (fst t, (snd t)\<lparr>row := r', col := c'\<rparr>) else t)"
  have other: "upd e = e" if "e \<in> set (newBoard st)" "e \<noteq> x" for e
  proof -
    from fst_inj_on_board [OF d1 that(1) x] that(2) have "fst e \<noteq> fst x" by blast
    then show ?thesis by (simp add: upd_def)
  qed
  have same: "map upd (newBoard st) = newBoard st" if "r' = row (snd x)" "c' = col (snd x)"
  proof (rule map_idI)
    fix e assume e: "e \<in> set (newBoard st)"
    show "upd e = e"
    proof (cases "e = x")
      case True
      with that show ?thesis by (simp add: upd_def)
    next
      case False
      with e show ?thesis by (rule other)
    qed
  qed
  have nb': "newBoard (relocate (fst x) (row (snd x)) (col (snd x)) r' c' st) = map upd (newBoard st)"
  proof (cases "r' = row (snd x) \<and> c' = col (snd x)")
    case True
    with same show ?thesis by (simp add: newBoard_relocate)
  next
    case False
    then show ?thesis by (auto simp: newBoard_relocate upd_def)
  qed
  have mem: "upd e \<in> set (map upd (newBoard st))" if "e \<in> set (newBoard st)" for e
    using that by simp
  have px: "row (snd (upd x)) = r'" "col (snd (upd x)) = c'"
    by (simp_all add: upd_def)
  note key = slide_Stop_key [OF sl]
  have goal: "\<not> in_grid g (row (snd (upd e)) + drow d) (col (snd (upd e)) + dcol d) \<or>
        (\<exists>e' \<in> set (map upd (newBoard st)). e' \<notin> set rest \<and>
           row (snd e') = row (snd (upd e)) + drow d \<and> col (snd e') = col (snd (upd e)) + dcol d)"
    if e: "e \<in> set (newBoard st)" and nr: "upd e \<notin> set rest" for e
  proof (cases "e = x")
    case True
    from slide_Stop_blocked [OF sl]
    show ?thesis
    proof
      assume "\<not> in_grid g (r' + drow d) (c' + dcol d)"
      with True px show ?thesis by simp
    next
      assume "\<exists>t. find (\<lambda>t. row (snd t) = r' + drow d \<and> col (snd t) = c' + dcol d) (newBoard st) = Some t \<and>
              \<not> (tvalue (snd t) = tvalue (snd x) \<and> \<not> justMerged (snd t))"
      then obtain t where f: "find (\<lambda>t. row (snd t) = r' + drow d \<and> col (snd t) = c' + dcol d) (newBoard st) = Some t"
        by blast
      from find_SomeD [OF f] have t: "t \<in> set (newBoard st)"
        and tp: "row (snd t) = r' + drow d" "col (snd t) = c' + dcol d" by simp_all
      have "sortKey d t = keyOf d r' c' - 1"
        by (simp add: sortKey_keyOf tp keyOf_step)
      with key have lt: "sortKey d t < sortKey d x"
        by (simp add: sortKey_keyOf)
      then have "t \<noteq> x" by auto
      from lt so have "t \<notin> set rest" by fastforce
      moreover from other [OF t \<open>t \<noteq> x\<close>] mem [OF t] have "t \<in> set (map upd (newBoard st))" by simp
      ultimately show ?thesis
        using True px tp by auto
    qed
  next
    case False
    with other [OF e] have ue: "upd e = e" by simp
    with nr False have "e \<notin> set (x # rest)" by simp
    with S e have "\<not> in_grid g (row (snd e) + drow d) (col (snd e) + dcol d) \<or>
        (\<exists>e' \<in> set (newBoard st). e' \<notin> set (x # rest) \<and>
           row (snd e') = row (snd e) + drow d \<and> col (snd e') = col (snd e) + dcol d)"
      unfolding settled_objs_def by blast
    then show ?thesis
    proof
      assume "\<not> in_grid g (row (snd e) + drow d) (col (snd e) + dcol d)"
      with ue show ?thesis by simp
    next
      assume "\<exists>e' \<in> set (newBoard st). e' \<notin> set (x # rest) \<and>
           row (snd e') = row (snd e) + drow d \<and> col (snd e') = col (snd e) + dcol d"
      then obtain e' where e': "e' \<in> set (newBoard st)" "e' \<noteq> x" "e' \<notin> set rest"
        "row (snd e') = row (snd e) + drow d" "col (snd e') = col (snd e) + dcol d"
        by auto
      from other [OF e'(1,2)] mem [OF e'(1)] have "e' \<in> set (map upd (newBoard st))" by simp
      with e'(3,4,5) ue show ?thesis by auto
    qed
  qed
  show ?thesis
    unfolding nb' settled_objs_def ball_set_map
    using goal by blast
qed


lemma settled_objs_merge_into:
  assumes inv: "loop_inv d st (x # rest)"
    and S: "settled_objs d g (newBoard st) (x # rest)"
    and sl: "slide d g (newBoard st) (snd x) (row (snd x)) (col (snd x)) = Merge t r' c'"
  shows "settled_objs d g (newBoard (merge_into ach x t r' c' st)) rest"
proof -
  note f = merge_target_facts [OF inv sl]
  from inv have d1: "distinct (map fst (newBoard st))"
    and fr: "\<forall>e \<in> set (newBoard st). fst e < fresh st"
    and sub: "set rest \<subseteq> set (newBoard st)"
    by (simp_all add: loop_inv_def)
  define m :: obj where "m = (fresh st, \<lparr>tvalue = tvalue (snd x) * 2, tid = tid (snd x), justMerged = True,
                    isNew = False, row = r', col = c'\<rparr>)"
  define keep where "keep = filter (\<lambda>e. fst e \<noteq> fst t \<and> fst e \<noteq> fst x) (newBoard st)"
  have nb': "newBoard (merge_into ach x t r' c' st) = keep @ [m]"
    by (simp add: newBoard_merge_into keep_def m_def)
  have pm: "row (snd m) = row (snd t)" "col (snd m) = col (snd t)"
    by (simp_all add: m_def f(3) f(4))
  have m_rest: "m \<notin> set rest"
  proof
    assume "m \<in> set rest"
    with sub fr have "fst m < fresh st" by blast
    then show False by (simp add: m_def)
  qed
  have in_keep: "e \<in> set keep" if "e \<in> set (newBoard st)" "e \<noteq> x" "e \<noteq> t" for e
  proof -
    from fst_inj_on_board [OF d1 that(1) f(2)] that(2) have "fst e \<noteq> fst x" by blast
    moreover from fst_inj_on_board [OF d1 that(1) f(1)] that(3) have "fst e \<noteq> fst t" by blast
    ultimately show ?thesis using that(1) by (simp add: keep_def)
  qed
  have keep_old: "e \<in> set (newBoard st) \<and> e \<noteq> x" if "e \<in> set keep" for e
    using that by (auto simp: keep_def)
  have next_ok: "\<not> in_grid g (row (snd e) + drow d) (col (snd e) + dcol d) \<or>
        (\<exists>e' \<in> set (keep @ [m]). e' \<notin> set rest \<and>
           row (snd e') = row (snd e) + drow d \<and> col (snd e') = col (snd e) + dcol d)"
    if e: "e \<in> set (newBoard st)" "e \<notin> set (x # rest)" for e
  proof -
    from S e have "\<not> in_grid g (row (snd e) + drow d) (col (snd e) + dcol d) \<or>
        (\<exists>e' \<in> set (newBoard st). e' \<notin> set (x # rest) \<and>
           row (snd e') = row (snd e) + drow d \<and> col (snd e') = col (snd e) + dcol d)"
      unfolding settled_objs_def by blast
    then show ?thesis
    proof
      assume "\<not> in_grid g (row (snd e) + drow d) (col (snd e) + dcol d)"
      then show ?thesis ..
    next
      assume "\<exists>e' \<in> set (newBoard st). e' \<notin> set (x # rest) \<and>
           row (snd e') = row (snd e) + drow d \<and> col (snd e') = col (snd e) + dcol d"
      then obtain e' where e': "e' \<in> set (newBoard st)" "e' \<noteq> x" "e' \<notin> set rest"
        "row (snd e') = row (snd e) + drow d" "col (snd e') = col (snd e) + dcol d"
        by auto
      show ?thesis
      proof (cases "e' = t")
        case True
        with e'(4,5) pm have "row (snd m) = row (snd e) + drow d" "col (snd m) = col (snd e) + dcol d"
          by simp_all
        with m_rest show ?thesis by auto
      next
        case False
        from in_keep [OF e'(1,2) False] e'(3,4,5) show ?thesis by auto
      qed
    qed
  qed
  have t_out: "t \<notin> set (x # rest)"
    using f(9) f(11) by simp
  have goal: "\<not> in_grid g (row (snd e) + drow d) (col (snd e) + dcol d) \<or>
        (\<exists>e' \<in> set (keep @ [m]). e' \<notin> set rest \<and>
           row (snd e') = row (snd e) + drow d \<and> col (snd e') = col (snd e) + dcol d)"
    if e: "e \<in> set (keep @ [m])" and nr: "e \<notin> set rest" for e
  proof (cases "e = m")
    case True
    from next_ok [OF f(1) t_out] show ?thesis
      unfolding True pm .
  next
    case False
    with e have "e \<in> set keep" by simp
    from keep_old [OF this] nr have "e \<in> set (newBoard st)" "e \<notin> set (x # rest)" by simp_all
    then show ?thesis by (rule next_ok)
  qed
  show ?thesis
    unfolding nb' settled_objs_def
    using goal by blast
qed

lemma settled_objs_move_tile:
  assumes inv: "loop_inv d st (x # rest)"
    and S: "settled_objs d g (newBoard st) (x # rest)"
  shows "settled_objs d g (newBoard (move_tile d g ach st x)) rest"
proof (cases "slide d g (newBoard st) (snd x) (row (snd x)) (col (snd x))")
  case (Stop r' c')
  from settled_objs_relocate [OF inv S Stop] Stop show ?thesis
    by (simp add: move_tile_Stop)
next
  case (Merge t r' c')
  from settled_objs_merge_into [OF inv S Merge] Merge show ?thesis
    by (simp add: move_tile_Merge [OF inv])
qed

lemma settled_resolve: "settled d (gridSize s) (map snd (newBoard (resolve d s)))"
proof (rule settled_objs_final)
  show "settled_objs d (gridSize s) (newBoard (resolve d s)) []"
  proof (rule resolve_invariant [where P = "\<lambda>st rest. settled_objs d (gridSize s) (newBoard st) rest"])
    show "settled_objs d (gridSize s) (newBoard (initLoop s)) (sort_key (sortKey d) (copies (board s)))"
      by (simp add: settled_objs_def initLoop_def)
  next
    fix st x rest
    assume "loop_inv d st (x # rest)" "settled_objs d (gridSize s) (newBoard st) (x # rest)"
    then show "settled_objs d (gridSize s) (newBoard (move_tile d (gridSize s) (achievements s) st x)) rest"
      by (rule settled_objs_move_tile)
  qed
qed

lemma settled_move_tile:
  assumes se: "settled d g b" and x: "x \<in> set (copies b)"
    and T: "(\<not> changed st \<longrightarrow> newBoard st = copies b) \<and> (changed st \<longrightarrow> mergeHappened st)"
  shows "(\<not> changed (move_tile d g ach st x) \<longrightarrow> newBoard (move_tile d g ach st x) = copies b) \<and>
         (changed (move_tile d g ach st x) \<longrightarrow> mergeHappened (move_tile d g ach st x))"
proof (cases "changed st")
  case True
  with T have "mergeHappened st" by simp
  with True show ?thesis
    by (cases "slide d g (newBoard st) (snd x) (row (snd x)) (col (snd x))")
       (simp_all add: move_tile_def newBoard_relocate newBoard_merge_into)
next
  case False
  with T have nb: "newBoard st = copies b" by simp
  from x obtain t where t: "t \<in> set b" "snd x = t\<lparr>justMerged := False, isNew := False\<rparr>"
    by (rule copy_of_tile)
  then have pos: "row (snd x) = row t" "col (snd x) = col t" by simp_all
  show ?thesis
  proof (cases "in_grid g (row t + drow d) (col t + dcol d)")
    case out: False
    then have "slide d g (copies b) (snd x) (row (snd x)) (col (snd x)) = Stop (row (snd x)) (col (snd x))"
      by (subst slide_unfold) (simp add: pos)
    with T show ?thesis by (simp add: move_tile_def nb)
  next
    case True
    with se t(1) have "occupied b (row t + drow d) (col t + dcol d)"
      by (auto simp: settled_def)
    then obtain e where e: "find (\<lambda>t'. row (snd t') = row t + drow d \<and> col (snd t') = col t + dcol d) (copies b) = Some e"
      by (rule find_copies_Some)
    show ?thesis
    proof (cases "tvalue (snd e) = tvalue (snd x) \<and> \<not> justMerged (snd e)")
      case mergeable: True
      with True e have "slide d g (copies b) (snd x) (row (snd x)) (col (snd x)) =
          Merge e (row (snd x) + drow d) (col (snd x) + dcol d)"
        by (subst slide_unfold) (simp add: pos)
      then show ?thesis
        by (simp add: move_tile_def nb newBoard_relocate newBoard_merge_into)
    next
      case False
      with True e have "slide d g (copies b) (snd x) (row (snd x)) (col (snd x)) = Stop (row (snd x)) (col (snd x))"
        by (subst slide_unfold) (auto simp: pos)
      with T show ?thesis by (simp add: move_tile_def nb)
    qed
  qed
qed

lemma settled_changes_by_merging:
  assumes "settled d (gridSize s) (board s)"
  shows "changed (resolve d s) \<longrightarrow> mergeHappened (resolve d s)"
proof -
  have "(\<not> changed (resolve d s) \<longrightarrow> newBoard (resolve d s) = copies (board s)) \<and>
        (changed (resolve d s) \<longrightarrow> mergeHappened (resolve d s))"
    unfolding resolve_def
  proof (rule foldl_invariant [where P = "\<lambda>st :: Loop. (\<not> changed st \<longrightarrow> newBoard st = copies (board s)) \<and>
            (changed st \<longrightarrow> mergeHappened st)"])
    show "(\<not> changed (initLoop s) \<longrightarrow> newBoard (initLoop s) = copies (board s)) \<and>
          (changed (initLoop s) \<longrightarrow> mergeHappened (initLoop s))"
      by (simp add: initLoop_def)
  next
    fix st :: Loop and x :: obj
    assume T: "(\<not> changed st \<longrightarrow> newBoard st = copies (board s)) \<and> (changed st \<longrightarrow> mergeHappened st)"
      and "x \<in> set (sort_key (sortKey d) (copies (board s)))"
    then have x: "x \<in> set (copies (board s))" by simp
    show "(\<not> changed (move_tile d (gridSize s) (achievements s) st x) \<longrightarrow>
            newBoard (move_tile d (gridSize s) (achievements s) st x) = copies (board s)) \<and>
          (changed (move_tile d (gridSize s) (achievements s) st x) \<longrightarrow>
            mergeHappened (move_tile d (gridSize s) (achievements s) st x))"
      by (rule settled_move_tile [OF assms x T])
  qed
  then show ?thesis ..
qed

lemma settled_blocked:
  assumes "settled d g b" and t: "t \<in> set b"
    and "\<forall>u \<in> set b. row u = row t + drow d \<and> col u = col t + dcol d \<longrightarrow> tvalue u \<noteq> tvalue t"
  shows "blocked d g b t"
  using assms by (auto simp: settled_def blocked_def)

lemma resolved_fields [simp]:
  "board (resolved d s) = map snd (newBoard (resolve d s))"
  "gridSize (resolved d s) = gridSize s"
  "score (resolved d s) = newScore (resolve d s)"
  by (simp_all add: resolved_def)

text \<open>
  Claim C6, as the code has it. After the resolver has run, no tile has a free cell of the
  grid next to it in the direction of the move. So resolving again in the same direction,
  with no tile spawned in between, slides no tile without merging: it reports a change only
  when it has merged tiles, and when no tile of the resolved board has a tile of its value
  next to it in that direction, it reports no change and leaves the score and the tiles as
  they are.
\<close>

theorem second_resolve_only_merges:
  "(changed (resolve d (resolved d s)) \<longrightarrow> mergeHappened (resolve d (resolved d s))) \<and>
   ((\<forall>t \<in> set (board (resolved d s)). \<forall>u \<in> set (board (resolved d s)).
        row u = row t + drow d \<and> col u = col t + dcol d \<longrightarrow> tvalue u \<noteq> tvalue t) \<longrightarrow>
    \<not> changed (resolve d (resolved d s)) \<and>
    newScore (resolve d (resolved d s)) = score (resolved d s) \<and>
    map snd (newBoard (resolve d (resolved d s))) =
      map (\<lambda>tile. tile\<lparr>justMerged := False, isNew := False\<rparr>) (board (resolved d s)))"
proof (intro conjI impI)
  have se: "settled d (gridSize (resolved d s)) (board (resolved d s))"
    using settled_resolve [of d s] by simp
  from settled_changes_by_merging [OF se]
  show "changed (resolve d (resolved d s)) \<Longrightarrow> mergeHappened (resolve d (resolved d s))"
    by simp
  assume diff: "\<forall>t \<in> set (board (resolved d s)). \<forall>u \<in> set (board (resolved d s)).
        row u = row t + drow d \<and> col u = col t + dcol d \<longrightarrow> tvalue u \<noteq> tvalue t"
  have "\<forall>t \<in> set (board (resolved d s)). blocked d (gridSize (resolved d s)) (board (resolved d s)) t"
  proof
    fix t assume "t \<in> set (board (resolved d s))"
    with se diff show "blocked d (gridSize (resolved d s)) (board (resolved d s)) t"
      by (intro settled_blocked) auto
  qed
  then have r: "resolve d (resolved d s) = initLoop (resolved d s)"
    by (rule blocked_resolve)
  show "\<not> changed (resolve d (resolved d s))"
    "newScore (resolve d (resolved d s)) = score (resolved d s)"
    "map snd (newBoard (resolve d (resolved d s))) =
      map (\<lambda>tile. tile\<lparr>justMerged := False, isNew := False\<rparr>) (board (resolved d s))"
    unfolding r by (simp_all add: initLoop_def map_snd_copies)
qed

theorem second_resolve_only_merges_witness:
  "changed (resolve Left (resolved Left row_224)) \<and>
   mergeHappened (resolve Left (resolved Left row_224)) \<and>
   map (\<lambda>t. (tvalue t, row t, col t)) (board (resolved Left row_242)) = [(2, 0, 0), (4, 0, 1), (2, 0, 2)] \<and>
   \<not> changed (resolve Left (resolved Left row_242))"
proof -
  have c: "changed (resolve Left (resolved Left row_224))" by code_simp
  with second_resolve_only_merges [of Left row_224]
  have m: "mergeHappened (resolve Left (resolved Left row_224))" by simp
  have b: "map (\<lambda>t. (tvalue t, row t, col t)) (board (resolved Left row_242)) = [(2, 0, 0), (4, 0, 1), (2, 0, 2)]"
    by code_simp
  have "\<forall>t \<in> set (board (resolved Left row_242)). \<forall>u \<in> set (board (resolved Left row_242)).
        row u = row t + drow Left \<and> col u = col t + dcol Left \<longrightarrow> tvalue u \<noteq> tvalue t"
    by code_simp
  with second_resolve_only_merges [of Left row_242]
  have n: "\<not> changed (resolve Left (resolved Left row_242))" by blast
  from c m b n show ?thesis by (intro conjI)
qed

text \<open>
  The claim C6 as the specification states it fails: the row 2, 2, 4 moved left becomes 4, 4,
  and moved left again it becomes 8, which is a change.
\<close>

theorem second_resolve_counterexample:
  "map tvalue (board row_224) = [2, 2, 4] \<and> map col (board row_224) = [0, 1, 2] \<and>
   map tvalue (board (resolved Left row_224)) = [4, 4] \<and>
   map col (board (resolved Left row_224)) = [1, 0] \<and>
   changed (resolve Left (resolved Left row_224)) \<and>
   map tvalue (map snd (newBoard (resolve Left (resolved Left row_224)))) = [8]"
  by code_simp

section \<open>Victory\<close>

lemma victoryToast_eq: "victoryToast = ''Reached the 2048 tile!''"
  by (simp add: victoryToast_def getAchievementDescription_def)

lemma victory_fields_relocate:
  "victory_fields ach g0 st \<Longrightarrow> victory_fields ach g0 (relocate ref r c r' c' st)"
  by (auto simp: victory_fields_def relocate_def)

lemma victory_fields_merge_into:
  "victory_fields ach g0 st \<Longrightarrow> victory_fields ach g0 (merge_into ach x t r' c' st)"
  by (auto simp: victory_fields_def merge_into_def addAchievement_def Let_def victoryToast_def)

lemma victory_fields_move_tile:
  "victory_fields ach g0 st \<Longrightarrow> victory_fields ach g0 (move_tile d g ach st x)"
  by (cases "slide d g (newBoard st) (snd x) (row (snd x)) (col (snd x))")
     (simp_all add: move_tile_def victory_fields_relocate victory_fields_merge_into)

lemma victory_fields_resolve: "victory_fields (achievements s) (gameState s) (resolve d s)"
  unfolding resolve_def
  by (rule foldl_invariant) (simp_all add: victory_fields_def initLoop_def victory_fields_move_tile [unfolded victory_fields_def])


lemma made_2048_update [simp]:
  "made_2048 (if fst e = ref then (fst e, (snd e)\<lparr>row := r', col := c'\<rparr>) else e) = made_2048 e"
  by (simp add: made_2048_def)

lemma toasts_relocate [simp]: "toasts (relocate ref r c r' c' st) = toasts st"
  by (simp add: relocate_def)

lemma toasts_merge_into:
  "toasts (merge_into ach x t r' c' st) \<noteq> [] \<longleftrightarrow>
     toasts st \<noteq> [] \<or> (tvalue (snd x) * 2 = 2048 \<and> ''reach2048'' \<notin> set ach)"
  by (auto simp: merge_into_def addAchievement_def Let_def)

lemma bex_set_map: "(\<exists>e \<in> set (map f xs). P e) \<longleftrightarrow> (\<exists>e \<in> set xs. P (f e))"
  by auto

lemma made_2048_relocate:
  "(\<exists>e \<in> set (newBoard (relocate ref r c r' c' st)). made_2048 e) \<longleftrightarrow>
   (\<exists>e \<in> set (newBoard st). made_2048 e)"
proof (cases "r' \<noteq> r \<or> c' \<noteq> c")
  case True
  then have "newBoard (relocate ref r c r' c' st) =
     map (\<lambda>e. if fst e = ref then (fst e, (snd e)\<lparr>row := r', col := c'\<rparr>) else e) (newBoard st)"
    by (simp add: newBoard_relocate)
  then show ?thesis
    by (simp only: bex_set_map made_2048_update)
next
  case False
  then show ?thesis by (simp add: newBoard_relocate)
qed

lemma made_2048_merge_into:
  assumes inv: "loop_inv d st (x # rest)"
    and xu: "\<not> justMerged (snd x)"
    and sl: "slide d g (newBoard st) (snd x) (row (snd x)) (col (snd x)) = Merge t r' c'"
  shows "(\<exists>e \<in> set (newBoard (merge_into ach x t r' c' st)). made_2048 e) \<longleftrightarrow>
         (\<exists>e \<in> set (newBoard st). made_2048 e) \<or> tvalue (snd x) * 2 = 2048"
proof -
  note f = merge_target_facts [OF inv sl]
  from inv have d1: "distinct (map fst (newBoard st))" by (simp add: loop_inv_def)
  define m :: obj where "m = (fresh st, \<lparr>tvalue = tvalue (snd x) * 2, tid = tid (snd x), justMerged = True,
                    isNew = False, row = r', col = c'\<rparr>)"
  define keep where "keep = filter (\<lambda>e. fst e \<noteq> fst t \<and> fst e \<noteq> fst x) (newBoard st)"
  have nb': "newBoard (merge_into ach x t r' c' st) = keep @ [m]"
    by (simp add: newBoard_merge_into keep_def m_def)
  have in_keep: "e \<in> set keep" if e: "e \<in> set (newBoard st)" "made_2048 e" for e
  proof -
    from e(2) f(6) xu have "e \<noteq> t" "e \<noteq> x" by (auto simp: made_2048_def)
    with fst_inj_on_board [OF d1 e(1) f(1)] fst_inj_on_board [OF d1 e(1) f(2)]
    have "fst e \<noteq> fst t" "fst e \<noteq> fst x" by blast+
    with e(1) show ?thesis by (simp add: keep_def)
  qed
  have old: "e \<in> set (newBoard st)" if "e \<in> set keep" for e
    using that by (simp add: keep_def)
  have k: "(\<exists>e \<in> set keep. made_2048 e) \<longleftrightarrow> (\<exists>e \<in> set (newBoard st). made_2048 e)"
    using in_keep old by blast
  have mm: "made_2048 m \<longleftrightarrow> tvalue (snd x) * 2 = 2048"
    by (simp add: made_2048_def m_def)
  have "(\<exists>e \<in> set (keep @ [m]). made_2048 e) \<longleftrightarrow> (\<exists>e \<in> set keep. made_2048 e) \<or> made_2048 m"
    by auto
  then show ?thesis
    unfolding nb' k mm .
qed

lemma toasts_made_2048_move_tile:
  assumes inv: "loop_inv d st (x # rest)"
    and xu: "\<not> justMerged (snd x)"
    and na: "''reach2048'' \<notin> set ach"
    and IH: "toasts st \<noteq> [] \<longleftrightarrow> (\<exists>e \<in> set (newBoard st). made_2048 e)"
  shows "toasts (move_tile d g ach st x) \<noteq> [] \<longleftrightarrow>
         (\<exists>e \<in> set (newBoard (move_tile d g ach st x)). made_2048 e)"
proof (cases "slide d g (newBoard st) (snd x) (row (snd x)) (col (snd x))")
  case (Stop r' c')
  with IH show ?thesis
    by (simp only: move_tile_Stop [OF Stop] made_2048_relocate toasts_relocate)
next
  case (Merge t r' c')
  with IH na show ?thesis
    by (simp only: move_tile_Merge [OF inv Merge] made_2048_merge_into [OF inv xu Merge]
        toasts_merge_into) simp
qed

lemma toasts_made_2048_resolve:
  assumes "''reach2048'' \<notin> set (achievements s)"
  shows "toasts (resolve d s) \<noteq> [] \<longleftrightarrow> (\<exists>e \<in> set (newBoard (resolve d s)). made_2048 e)"
proof -
  have "set [] \<subseteq> set (copies (board s)) \<and>
     (toasts (resolve d s) \<noteq> [] \<longleftrightarrow> (\<exists>e \<in> set (newBoard (resolve d s)). made_2048 e))"
  proof (rule resolve_invariant [where P = "\<lambda>st rest. set rest \<subseteq> set (copies (board s)) \<and>
          (toasts st \<noteq> [] \<longleftrightarrow> (\<exists>e \<in> set (newBoard st). made_2048 e))"])
    have "\<not> made_2048 e" if "e \<in> set (copies (board s))" for e
      using copies_not_flagged [OF that] by (simp add: made_2048_def)
    then show "set (sort_key (sortKey d) (copies (board s))) \<subseteq> set (copies (board s)) \<and>
          (toasts (initLoop s) \<noteq> [] \<longleftrightarrow> (\<exists>e \<in> set (newBoard (initLoop s)). made_2048 e))"
      by (auto simp: initLoop_def)
  next
    fix st x rest
    assume inv: "loop_inv d st (x # rest)"
      and "set (x # rest) \<subseteq> set (copies (board s)) \<and>
           (toasts st \<noteq> [] \<longleftrightarrow> (\<exists>e \<in> set (newBoard st). made_2048 e))"
    then have xc: "x \<in> set (copies (board s))" and r: "set rest \<subseteq> set (copies (board s))"
      and IH: "toasts st \<noteq> [] \<longleftrightarrow> (\<exists>e \<in> set (newBoard st). made_2048 e)"
      by simp_all
    from xc have xu: "\<not> justMerged (snd x)" by (rule copies_not_flagged)
    from toasts_made_2048_move_tile [OF inv xu assms IH] r
    show "set rest \<subseteq> set (copies (board s)) \<and>
          (toasts (move_tile d (gridSize s) (achievements s) st x) \<noteq> [] \<longleftrightarrow>
           (\<exists>e \<in> set (newBoard (move_tile d (gridSize s) (achievements s) st x)). made_2048 e))"
      by simp
  qed
  then show ?thesis ..
qed

lemma snd_move:
  "snd (move d r1 r2 now s) = (if gameState s = Playing then toasts (resolve d s) else [])"
  by (simp add: move_def Let_def)

lemma achievements_move:
  "achievements (fst (move d r1 r2 now s)) =
     (if gameState s = Playing then achievementsSet (resolve d s) else achievements s)"
  by (simp add: move_def Let_def)

lemma gameState_move:
  assumes "gameState s = Playing"
  shows "gameState (fst (move d r1 r2 now s)) = GameOver \<or>
         gameState (fst (move d r1 r2 now s)) = gameStateSet (resolve d s)"
proof (cases "changed (resolve d s)")
  case True
  show ?thesis
  proof (cases "isGameOverState (gridSize s)
                (addNewTile (gridSize s) r1 r2 now (map snd (newBoard (resolve d s))))")
    case over: True
    with True assms show ?thesis by (simp add: move_def Let_def)
  next
    case False
    with True assms show ?thesis by (simp add: move_def Let_def)
  qed
next
  case False
  show ?thesis
  proof (cases "isGameOverState (gridSize s) (map snd (newBoard (resolve d s)))")
    case over: True
    with False assms show ?thesis by (simp add: move_def Let_def)
  next
    case nover: False
    with False assms show ?thesis by (simp add: move_def Let_def)
  qed
qed

lemma victory_in_move:
  "victoryToast \<in> set (snd (move d r1 r2 now s)) \<longleftrightarrow>
     gameState s = Playing \<and> ''reach2048'' \<notin> set (achievements s) \<and>
     (\<exists>e \<in> set (newBoard (resolve d s)). made_2048 e)"
proof (cases "gameState s = Playing")
  case False
  then show ?thesis by (simp add: snd_move)
next
  case True
  note vf = victory_fields_resolve [of s d]
  show ?thesis
  proof (cases "''reach2048'' \<in> set (achievements s)")
    case in_ach: True
    with vf have "toasts (resolve d s) = []" by (simp add: victory_fields_def)
    with True in_ach show ?thesis by (simp add: snd_move)
  next
    case False
    from vf have "victoryToast \<in> set (toasts (resolve d s)) \<longleftrightarrow> toasts (resolve d s) \<noteq> []"
      by (auto simp: victory_fields_def)
    with True False toasts_made_2048_resolve [OF False, of d] show ?thesis
      by (simp add: snd_move)
  qed
qed

lemma victory_in_move_effect:
  assumes "victoryToast \<in> set (snd (move d r1 r2 now s))"
  shows "''reach2048'' \<notin> set (achievements s)"
    "achievements (fst (move d r1 r2 now s)) = achievements s @ [''reach2048'']"
    "gameState (fst (move d r1 r2 now s)) = Victory \<or> gameState (fst (move d r1 r2 now s)) = GameOver"
    "gameState s = Playing"
proof -
  from assms show p: "gameState s = Playing" and na: "''reach2048'' \<notin> set (achievements s)"
    by (simp_all add: victory_in_move)
  from assms p have t: "toasts (resolve d s) \<noteq> []" by (auto simp: snd_move)
  with victory_fields_resolve [of s d]
  have f: "achievementsSet (resolve d s) = achievements s @ [''reach2048'']"
    "gameStateSet (resolve d s) = Victory"
    by (simp_all add: victory_fields_def)
  from f(1) p show "achievements (fst (move d r1 r2 now s)) = achievements s @ [''reach2048'']"
    by (simp add: achievements_move)
  from f(2) gameState_move [OF p, of d r1 r2 now]
  show "gameState (fst (move d r1 r2 now s)) = Victory \<or> gameState (fst (move d r1 r2 now s)) = GameOver"
    by auto
qed







section \<open>The sum of the tile values after a move\<close>

lemma merge_leaves_flagged:
  "mergeHappened (resolve d s) \<longrightarrow> 0 < merged_count (newBoard (resolve d s))"
proof -
  have "set [] \<subseteq> set (copies (board s)) \<and>
        (mergeHappened (resolve d s) \<longrightarrow> 0 < merged_count (newBoard (resolve d s)))"
  proof (rule resolve_invariant [where P = "\<lambda>st rest. set rest \<subseteq> set (copies (board s)) \<and>
          (mergeHappened st \<longrightarrow> 0 < merged_count (newBoard st))"])
    show "set (sort_key (sortKey d) (copies (board s))) \<subseteq> set (copies (board s)) \<and>
          (mergeHappened (initLoop s) \<longrightarrow> 0 < merged_count (newBoard (initLoop s)))"
      by (simp add: initLoop_def)
  next
    fix st x rest
    assume inv: "loop_inv d st (x # rest)"
      and "set (x # rest) \<subseteq> set (copies (board s)) \<and>
           (mergeHappened st \<longrightarrow> 0 < merged_count (newBoard st))"
    then have xc: "x \<in> set (copies (board s))" and r: "set rest \<subseteq> set (copies (board s))"
      and IH: "mergeHappened st \<longrightarrow> 0 < merged_count (newBoard st)"
      by simp_all
    from xc have xu: "\<not> justMerged (snd x)" by (rule copies_not_flagged)
    have "mergeHappened (move_tile d (gridSize s) (achievements s) st x) \<longrightarrow>
          0 < merged_count (newBoard (move_tile d (gridSize s) (achievements s) st x))"
    proof (cases "slide d (gridSize s) (newBoard st) (snd x) (row (snd x)) (col (snd x))")
      case (Stop r' c')
      with IH show ?thesis
        by (simp add: move_tile_Stop merged_count_relocate newBoard_relocate(4))
    next
      case (Merge t r' c')
      from merged_count_merge_into(1) [OF inv xu Merge, of "achievements s"]
      have "0 < merged_count (newBoard (merge_into (achievements s) x t r' c' st))" by linarith
      then show ?thesis
        by (simp add: move_tile_Merge [OF inv Merge])
    qed
    with r show "set rest \<subseteq> set (copies (board s)) \<and>
          (mergeHappened (move_tile d (gridSize s) (achievements s) st x) \<longrightarrow>
           0 < merged_count (newBoard (move_tile d (gridSize s) (achievements s) st x)))"
      by simp
  qed
  then show ?thesis ..
qed

lemma full_board_settled:
  assumes "valid_board g b" and "int (length b) = g * g"
  shows "settled d g b"
  using assms valid_board_full_iff [OF assms(1)] by (simp add: settled_def)

lemma emptyTiles_Nil_iff:
  "emptyTiles g b = [] \<longleftrightarrow> (\<forall>r c. in_grid g r c \<longrightarrow> occupied b r c)"
proof -
  have "emptyTiles g b = [] \<longleftrightarrow> set (emptyTiles g b) = {}" by simp
  also have "\<dots> \<longleftrightarrow> (\<forall>r c. in_grid g r c \<longrightarrow> occupied b r c)"
    unfolding set_emptyTiles by (auto simp: in_grid_def occupied_def)
  finally show ?thesis .
qed

lemma spawn_after_effective_move:
  assumes v: "valid_board (gridSize s) (board s)" and ch: "changed (resolve d s)"
  shows "emptyTiles (gridSize s) (map snd (newBoard (resolve d s))) \<noteq> []"
proof
  let ?g = "gridSize s" and ?b' = "map snd (newBoard (resolve d s))"
  assume "emptyTiles ?g ?b' = []"
  then have occ: "\<forall>r c. in_grid ?g r c \<longrightarrow> occupied ?b' r c"
    by (simp add: emptyTiles_Nil_iff)
  have v': "valid_board ?g ?b'" by (rule valid_board_resolve [OF v])
  have g0: "0 \<le> ?g"
  proof (rule ccontr)
    assume "\<not> 0 \<le> ?g"
    with v have "board s = []"
      by (cases "board s") (auto simp: valid_board_def in_grid_def)
    then have "resolve d s = initLoop s"
      by (intro blocked_resolve) simp
    with ch show False by (simp add: initLoop_def)
  qed
  with occ valid_board_full_iff [OF v'] have len': "int (length ?b') = ?g * ?g" by simp
  from merged_count_resolve [of d s]
  have "int (length ?b') + int (merged_count (newBoard (resolve d s))) = int (length (board s))"
    by simp
  with len' valid_board_length_le [OF v]
  have mc: "merged_count (newBoard (resolve d s)) = 0" and len: "int (length (board s)) = ?g * ?g"
    by linarith+
  from full_board_settled [OF v len] have "settled d ?g (board s)" .
  from settled_changes_by_merging [OF this] ch have "mergeHappened (resolve d s)" by simp
  with merge_leaves_flagged [of d s] mc show False by simp
qed

text \<open>
  Claim C2, as the code has it. A merge puts one tile of the doubled value in the place of two
  tiles of the value, so resolving a move leaves the sum of the tile values as it was, whatever
  the merges add to the score. After a processed effective move the sum of the tile values is
  the sum before the move plus the value of the spawned tile, which is 2 or 4; and on a board
  with its tiles in the grid, one to a cell, an effective move always leaves an empty cell, so
  a tile is spawned.
\<close>

theorem move_conserves_sum:
  assumes "gameState s = Playing" and "changed (resolve d s)"
  shows "sum_values (map snd (newBoard (resolve d s))) = sum_values (board s) \<and>
         sum_values (board (fst (move d r1 r2 now s))) =
           sum_values (board s) +
             (if emptyTiles (gridSize s) (map snd (newBoard (resolve d s))) = [] then 0
              else if draw_val r2 < 9 / 10 then 2 else 4) \<and>
         (emptyTiles (gridSize s) (map snd (newBoard (resolve d s))) \<noteq> [] \<longrightarrow>
            board (fst (move d r1 r2 now s)) =
              map snd (newBoard (resolve d s)) @ [last (board (fst (move d r1 r2 now s)))] \<and>
            sum_values (board (fst (move d r1 r2 now s))) =
              sum_values (board s) + tvalue (last (board (fst (move d r1 r2 now s))))) \<and>
         (valid_board (gridSize s) (board s) \<longrightarrow>
            emptyTiles (gridSize s) (map snd (newBoard (resolve d s))) \<noteq> [])"
proof -
  let ?b = "map snd (newBoard (resolve d s))"
  have b: "board (fst (move d r1 r2 now s)) = addNewTile (gridSize s) r1 r2 now ?b"
    using assms by (simp add: move_def Let_def)
  have l: "tvalue (last (addNewTile (gridSize s) r1 r2 now ?b)) = (if draw_val r2 < 9 / 10 then 2 else 4)"
    "addNewTile (gridSize s) r1 r2 now ?b = ?b @ [last (addNewTile (gridSize s) r1 r2 now ?b)]"
    if "emptyTiles (gridSize s) ?b \<noteq> []"
    using that by (simp_all add: addNewTile_unfold Let_def split: prod.splits)
  show ?thesis
    unfolding b using l spawn_after_effective_move [OF _ assms(2)]
    by (simp add: sum_values_addNewTile sum_values_resolve)
qed

theorem move_conserves_sum_witness:
  "gameState two_twos = Playing \<and> changed (resolve Left two_twos) \<and>
   valid_board (gridSize two_twos) (board two_twos) \<and>
   sum_values (board two_twos) = 4 \<and>
   sum_values (board (fst (move Left (Draw 0) (Draw 0) 0 two_twos))) = 6 \<and>
   tvalue (last (board (fst (move Left (Draw 0) (Draw 0) 0 two_twos)))) = 2"
proof -
  have v: "valid_board (gridSize two_twos) (board two_twos)" by code_simp
  have s: "sum_values (board two_twos) = 4" by code_simp
  note t = move_conserves_sum [of two_twos Left "Draw 0" "Draw 0" 0]
  from t v have e: "emptyTiles (gridSize two_twos) (map snd (newBoard (resolve Left two_twos))) \<noteq> []"
    by (simp add: resolve_two_twos(2,4))
  from t e have "sum_values (board (fst (move Left (Draw 0) (Draw 0) 0 two_twos))) = 6"
    by (simp add: resolve_two_twos(2,4) s draw0)
  moreover have "tvalue (last (board (fst (move Left (Draw 0) (Draw 0) 0 two_twos)))) = 2"
    by (simp add: move_two_twos)
  ultimately show ?thesis
    using v s resolve_two_twos(2,4) by (intro conjI)
qed

text \<open>
  The claim C2 as the specification states it, with the score delta added, fails: two tiles of
  value 2 merge into a 4 for a score delta of 4, a 2 is spawned, and the sum goes from 4 to 6,
  not to 10.
\<close>

theorem move_conserves_sum_counterexample:
  "sum_values (board (fst (move Left (Draw 0) (Draw 0) 0 two_twos))) \<noteq>
     sum_values (board two_twos) +
       (score (fst (move Left (Draw 0) (Draw 0) 0 two_twos)) - score two_twos) +
       tvalue (last (board (fst (move Left (Draw 0) (Draw 0) 0 two_twos))))"
  by (simp add: move_two_twos resolve_two_twos sum_values_def tile_at_def)

end
